theory Spec2Isabelle
  imports Main "HOL-Library.Multiset"
begin

section \<open>The analytics store of server.js\<close>

text \<open>
  The theory embeds the class \<open>StateManagement\<close> of \<^verbatim>\<open>src/server.js\<close> (lines 290-449)
  and the statistics handlers that read it (lines 735-823).

  Conventions of the embedding.
  \<^item> An entry is a JavaScript value: \<^verbatim>\<open>undefined\<close>, \<^verbatim>\<open>null\<close>, a string (a path, a text, a
    referrer), an array of strings (a repeated query parameter) or an object whose
    properties are numbers and strings, such as the size \<^verbatim>\<open>{ w, h }\<close> of line 713 and a
    bracketed query parameter. An object is the list of its properties in their order,
    with pairwise distinct names; a number is an integer, which \<^verbatim>\<open>JSON.stringify\<close> writes
    in decimal digits (below \<open>10\<^sup>2\<^sup>1\<close> in size), and a value nested deeper is outside the
    embedding. Entries are compared as line 420 compares them, by
    their JSON texts; \<^verbatim>\<open>JSON.parse\<close> inverts \<^verbatim>\<open>JSON.stringify\<close> on these values, so a file
    holds the record list that was written to it.
  \<^item> \<^verbatim>\<open>Date.now()\<close> and \<^verbatim>\<open>new Date()\<close> read the clock: every reading is an argument, in
    milliseconds. \<^verbatim>\<open>setSeconds(getSeconds() - 5)\<close> moves a date back by 5000 ms.
  \<^item> \<^verbatim>\<open>Array.prototype.sort\<close> belongs to the JavaScript engine, not to the program: it is
    the argument \<open>srt\<close> of every function that sorts, and \<open>conforming_sort\<close> states what
    ECMAScript promises about it. A comparator returns a number; a boolean result is
    converted (\<^verbatim>\<open>true\<close> to 1, \<^verbatim>\<open>false\<close> to 0).
  \<^item> A thrown exception is the \<open>Inl\<close> of a sum; mutation in place is explicit: a function
    that sorts or updates the stored array returns the updated store.
\<close>

subsection \<open>Entries and records\<close>

datatype atom = Num int | Text string

datatype jsvalue =
  Undefined | Null | Str string | Arr "string list" | Obj "(string \<times> atom) list"

text \<open>The object \<^verbatim>\<open>{ w: width, h: height }\<close> of lines 713 and 714.\<close>

abbreviation Size :: "int \<Rightarrow> int \<Rightarrow> jsvalue" where
  "Size w h \<equiv> Obj [(''w'', Num w), (''h'', Num h)]"

text \<open>A stored record \<^verbatim>\<open>{ entry, time, count }\<close> (line 328).\<close>

record stat =
  entry :: jsvalue
  time :: int
  count_r :: int

datatype error = ReferenceError

text \<open>\<^verbatim>\<open>isNil = (value) => value == null\<close> (line 60).\<close>

definition isNil :: "jsvalue \<Rightarrow> bool" where
  "isNil v = (v = Undefined \<or> v = Null)"

definition isArray :: "jsvalue \<Rightarrow> bool" where
  "isArray v = (case v of Arr xs \<Rightarrow> True | _ \<Rightarrow> False)"

subsection \<open>JSON text\<close>

text \<open>
  \<^verbatim>\<open>JSON.stringify(value)\<close> without indentation, as line 420 calls it: \<^verbatim>\<open>undefined\<close> for
  \<^verbatim>\<open>undefined\<close> (\<open>None\<close>), and otherwise the JSON text. An integer is written in decimal
  digits. A string is written between double quotes, with the double quote and the
  backslash escaped by a backslash, the control characters below U+0020 written
  \<^verbatim>\<open>\b\<close>, \<^verbatim>\<open>\t\<close>, \<^verbatim>\<open>\n\<close>, \<^verbatim>\<open>\f\<close>, \<^verbatim>\<open>\r\<close> or \<^verbatim>\<open>\u00XX\<close> (lower-case hexadecimal digits), and
  every other character as it is. The elements of an array and the properties of an object
  are separated by commas; the properties are written in the order of the object.
\<close>

definition digit :: "nat \<Rightarrow> char" where
  "digit d = ''0123456789abcdef'' ! d"

function show_nat :: "nat \<Rightarrow> string" where
  "show_nat n = (if n < 10 then [digit n] else show_nat (n div 10) @ [digit (n mod 10)])"
  by pat_completeness auto
termination
  by (relation "measure id") auto

declare show_nat.simps [simp del]

definition show_int :: "int \<Rightarrow> string" where
  "show_int n = (if n < 0 then CHR ''-'' # show_nat (nat (- n)) else show_nat (nat n))"

definition escape :: "char \<Rightarrow> string" where
  "escape c =
     (if c = CHR 0x22 then [CHR 0x5C, CHR 0x22]
      else if c = CHR 0x5C then [CHR 0x5C, CHR 0x5C]
      else if c = CHR 0x08 then [CHR 0x5C, CHR ''b'']
      else if c = CHR 0x0C then [CHR 0x5C, CHR ''f'']
      else if c = CHR 0x0A then [CHR 0x5C, CHR ''n'']
      else if c = CHR 0x0D then [CHR 0x5C, CHR ''r'']
      else if c = CHR 0x09 then [CHR 0x5C, CHR ''t'']
      else if (of_char c :: nat) < 32
        then [CHR 0x5C, CHR ''u'', CHR ''0'', CHR ''0'',
              digit (of_char c div 16), digit (of_char c mod 16)]
      else [c])"

definition quote :: "string \<Rightarrow> string" where
  "quote s = CHR 0x22 # concat (map escape s) @ [CHR 0x22]"

fun joined :: "string list \<Rightarrow> string" where
  "joined [] = []"
| "joined [x] = x"
| "joined (x # y # ys) = x @ CHR '','' # joined (y # ys)"

definition atom_text :: "atom \<Rightarrow> string" where
  "atom_text v = (case v of Num n \<Rightarrow> show_int n | Text s \<Rightarrow> quote s)"

definition member :: "string \<times> atom \<Rightarrow> string" where
  "member kv = quote (fst kv) @ CHR '':'' # atom_text (snd kv)"

definition stringify :: "jsvalue \<Rightarrow> string option" where
  "stringify v =
     (case v of
        Undefined \<Rightarrow> None
      | Null \<Rightarrow> Some ''null''
      | Str s \<Rightarrow> Some (quote s)
      | Arr xs \<Rightarrow> Some (CHR ''['' # joined (map quote xs) @ [CHR '']''])
      | Obj kvs \<Rightarrow> Some (CHR ''{'' # joined (map member kvs) @ [CHR ''}'']))"

text \<open>The decimal digits, which end a number in a JSON text where they stop.\<close>

definition is_digit :: "char \<Rightarrow> bool" where
  "is_digit c = (c \<in> set ''0123456789'')"

text \<open>
  Structural equality of two entries, as the specification means it: the same value,
  and for two objects the same properties with the same values, in whatever order.
\<close>

definition structurally_equal :: "jsvalue \<Rightarrow> jsvalue \<Rightarrow> bool" where
  "structurally_equal a b =
     (case (a, b) of (Obj kvs, Obj kvs') \<Rightarrow> set kvs = set kvs' | _ \<Rightarrow> a = b)"

subsection \<open>Sorting\<close>

type_synonym sorter = "(stat \<Rightarrow> stat \<Rightarrow> int) \<Rightarrow> stat list \<Rightarrow> stat list"

text \<open>
  ECMAScript's consistent comparison function on a set of values: \<open>a =CF a\<close>, symmetry
  and transitivity of \<open>=CF\<close>, transitivity of \<open><CF\<close> and of \<open>>CF\<close>.
\<close>

definition consistent :: "('a \<Rightarrow> 'a \<Rightarrow> int) \<Rightarrow> 'a set \<Rightarrow> bool" where
  "consistent cmp S =
     ((\<forall>a\<in>S. cmp a a = 0) \<and>
      (\<forall>a\<in>S. \<forall>b\<in>S. cmp a b = 0 \<longrightarrow> cmp b a = 0) \<and>
      (\<forall>a\<in>S. \<forall>b\<in>S. \<forall>c\<in>S. cmp a b = 0 \<and> cmp b c = 0 \<longrightarrow> cmp a c = 0) \<and>
      (\<forall>a\<in>S. \<forall>b\<in>S. \<forall>c\<in>S. cmp a b < 0 \<and> cmp b c < 0 \<longrightarrow> cmp a c < 0) \<and>
      (\<forall>a\<in>S. \<forall>b\<in>S. \<forall>c\<in>S. cmp a b > 0 \<and> cmp b c > 0 \<longrightarrow> cmp a c > 0))"

text \<open>
  What ECMAScript promises of \<^verbatim>\<open>sort\<close>: the array is permuted, and when the comparator
  is consistent on its elements no element stands before one it compares greater than.
  With any other comparator the order is implementation-defined.
\<close>

definition conforming_sort :: "sorter \<Rightarrow> bool" where
  "conforming_sort srt =
     (\<forall>cmp xs. mset (srt cmp xs) = mset xs \<and>
        (consistent cmp (set xs) \<longrightarrow> sorted_wrt (\<lambda>a b. cmp a b \<le> 0) (srt cmp xs)))"

text \<open>
  A stable insertion sort, for running the model: each element is placed before the first
  element it compares less than. When the comparator never returns a negative number
  the array is left as it is, which is also what the merge sort of V8 (Node.js 11 and
  later) does, since it ends a run only at a negative comparison.
\<close>

fun insert_sorted :: "('a \<Rightarrow> 'a \<Rightarrow> int) \<Rightarrow> 'a \<Rightarrow> 'a list \<Rightarrow> 'a list" where
  "insert_sorted cmp x [] = [x]"
| "insert_sorted cmp x (y # ys) =
     (if cmp x y < 0 then x # y # ys else y # insert_sorted cmp x ys)"

definition insertion_sort :: "('a \<Rightarrow> 'a \<Rightarrow> int) \<Rightarrow> 'a list \<Rightarrow> 'a list" where
  "insertion_sort cmp xs = foldl (\<lambda>acc x. insert_sorted cmp x acc) [] xs"

text \<open>The four comparators of the program (lines 334, 362, 386, 762 and 773).\<close>

definition by_time :: "stat \<Rightarrow> stat \<Rightarrow> int" where
  "by_time a b = time b - time a"

definition by_count :: "stat \<Rightarrow> stat \<Rightarrow> int" where
  "by_count a b = (if count_r a = count_r b then time b - time a else count_r b - count_r a)"

definition time_less :: "stat \<Rightarrow> stat \<Rightarrow> int" where
  "time_less a b = (if time a < time b then 1 else 0)"

definition count_less :: "stat \<Rightarrow> stat \<Rightarrow> int" where
  "count_less a b = (if count_r a < count_r b then 1 else 0)"

subsection \<open>StateManagement\<close>

text \<open>
  \<open>files\<close> is the directory \<^verbatim>\<open>location\<close>: the content of \<^verbatim>\<open><name>.json\<close>, when the
  file exists. \<open>localPersistance\<close> is the in-memory cache.
\<close>

record StateManagement =
  filePersistance :: bool
  files :: "string \<rightharpoonup> stat list"
  localPersistance :: "string \<rightharpoonup> stat list"

text \<open>The constructor (lines 296-313), over the directory as it is found.\<close>

definition new_StateManagement :: "(string \<rightharpoonup> stat list) \<Rightarrow> bool \<Rightarrow> StateManagement" where
  "new_StateManagement location fp =
     \<lparr>filePersistance = fp, files = location, localPersistance = Map.empty\<rparr>"

text \<open>Lines 378-382: the cached array, or the parsed file when files are persisted.\<close>

definition content_of :: "StateManagement \<Rightarrow> string \<Rightarrow> stat list" where
  "content_of this name =
     (let content = (case localPersistance this name of Some c \<Rightarrow> c | None \<Rightarrow> [])
      in case (if filePersistance this then files this name else None) of
           Some parsed \<Rightarrow> parsed
         | None \<Rightarrow> content)"

text \<open>
  The array that \<open>content_of\<close> returns is the cached array itself when it comes from the
  cache and the cache has one; a change made to it in place is then a change of the store.
\<close>

definition shares :: "StateManagement \<Rightarrow> string \<Rightarrow> bool" where
  "shares this name =
     ((if filePersistance this then files this name else None) = None \<and>
      localPersistance this name \<noteq> None)"

definition inPlace :: "StateManagement \<Rightarrow> string \<Rightarrow> stat list \<Rightarrow> StateManagement" where
  "inPlace this name content =
     (if shares this name
      then this\<lparr>localPersistance := (localPersistance this)(name \<mapsto> content)\<rparr>
      else this)"

text \<open>\<^verbatim>\<open>getArrayEntries(name, false, order)\<close> (lines 376-388), the unmapped read.\<close>

definition getArrayRecords ::
  "sorter \<Rightarrow> StateManagement \<Rightarrow> string \<Rightarrow> bool \<Rightarrow> stat list \<times> StateManagement" where
  "getArrayRecords srt this name order =
     (let content = content_of this name
      in if order
         then (let sorted = srt time_less content in (sorted, inPlace this name sorted))
         else (content, this))"

datatype listing = Entries "jsvalue list" | Records "stat list"

definition getArrayEntries ::
  "sorter \<Rightarrow> StateManagement \<Rightarrow> string \<Rightarrow> bool \<Rightarrow> bool \<Rightarrow> listing \<times> StateManagement" where
  "getArrayEntries srt this name mp order =
     (let (content, this') = getArrayRecords srt this name order
      in (if mp then Entries (map entry content) else Records content, this'))"

text \<open>\<^verbatim>\<open>writeArrayEntries\<close> (lines 403-411) and \<^verbatim>\<open>removeArrayEntries\<close> (lines 394-396).\<close>

definition writeArrayEntries :: "StateManagement \<Rightarrow> string \<Rightarrow> stat list \<Rightarrow> StateManagement" where
  "writeArrayEntries this name entries =
     this\<lparr>files := (if filePersistance this then (files this)(name \<mapsto> entries) else files this),
          localPersistance := (localPersistance this)(name \<mapsto> entries)\<rparr>"

definition removeArrayEntries :: "StateManagement \<Rightarrow> string \<Rightarrow> StateManagement" where
  "removeArrayEntries this name = writeArrayEntries this name []"

text \<open>\<^verbatim>\<open>_incrementEntry\<close> (lines 434-437) and \<^verbatim>\<open>_incrementIfExists\<close> (lines 419-428).\<close>

definition incrementEntry :: "stat \<Rightarrow> int \<Rightarrow> stat" where
  "incrementEntry x now = x\<lparr>time := now, count_r := count_r x + 1\<rparr>"

fun incrementFirst :: "jsvalue \<Rightarrow> int \<Rightarrow> stat list \<Rightarrow> stat list" where
  "incrementFirst e now [] = []"
| "incrementFirst e now (x # xs) =
     (if stringify (entry x) = stringify e then incrementEntry x now # xs
      else x # incrementFirst e now xs)"

definition incrementIfExists :: "stat list \<Rightarrow> jsvalue \<Rightarrow> int \<Rightarrow> bool \<times> stat list" where
  "incrementIfExists content e now =
     (case filter (\<lambda>x. stringify (entry x) = stringify e) content of
        [] \<Rightarrow> (False, content)
      | storedEntry # _ \<Rightarrow> (True, incrementFirst e now content))"

text \<open>
  \<^verbatim>\<open>_canAdd\<close> (lines 443-448). The third test reads \<^verbatim>\<open>a.length\<close>, and no \<^verbatim>\<open>a\<close> is
  declared anywhere: for an array the read throws a ReferenceError.
\<close>

definition canAdd :: "jsvalue \<Rightarrow> error + bool" where
  "canAdd e =
     (if isNil e then Inr False
      else if (case e of Str s \<Rightarrow> s = [] | _ \<Rightarrow> False) then Inr False
      else if isArray e then Inl ReferenceError
      else Inr True)"

text \<open>
  Lines 327-329 and 355-357: increment the stored record, or push the new record
  \<^verbatim>\<open>{ entry, time: Date.now(), count: 1 }\<close>.
\<close>

definition newRecord :: "jsvalue \<Rightarrow> int \<Rightarrow> stat" where
  "newRecord e now = \<lparr>entry = e, time = now, count_r = 1\<rparr>"

definition merged :: "stat list \<Rightarrow> jsvalue \<Rightarrow> bool \<Rightarrow> int \<Rightarrow> stat list" where
  "merged content e increment now =
     (let (found, content') =
            (if increment then incrementIfExists content e now else (False, content))
      in if found then content' else content @ [newRecord e now])"

text \<open>Lines 333-336 and 361-364: over the persisted amount, sort and pop the last record.\<close>

definition reduced ::
  "sorter \<Rightarrow> (stat \<Rightarrow> stat \<Rightarrow> int) \<Rightarrow> nat option \<Rightarrow> stat list \<Rightarrow> stat list" where
  "reduced srt cmp persistAmount content =
     (case persistAmount of
        None \<Rightarrow> content
      | Some k \<Rightarrow> if length content > k then butlast (srt cmp content) else content)"

text \<open>\<^verbatim>\<open>addArrayEntry\<close> (lines 322-340) and \<^verbatim>\<open>addArrayCountEntry\<close> (lines 350-368).\<close>

definition addArrayEntry ::
  "sorter \<Rightarrow> StateManagement \<Rightarrow> string \<Rightarrow> jsvalue \<Rightarrow> nat option \<Rightarrow> bool \<Rightarrow> int
     \<Rightarrow> error + StateManagement" where
  "addArrayEntry srt this name e persistAmount increment now =
     (case canAdd e of
        Inl err \<Rightarrow> Inl err
      | Inr False \<Rightarrow> Inr this
      | Inr True \<Rightarrow>
          (let (content, this') = getArrayRecords srt this name False
           in Inr (writeArrayEntries this' name
                     (reduced srt by_time persistAmount (merged content e increment now)))))"

definition addArrayCountEntry ::
  "sorter \<Rightarrow> StateManagement \<Rightarrow> string \<Rightarrow> jsvalue \<Rightarrow> nat option \<Rightarrow> bool \<Rightarrow> int
     \<Rightarrow> error + StateManagement" where
  "addArrayCountEntry srt this name e persistAmount increment now =
     (case canAdd e of
        Inl err \<Rightarrow> Inl err
      | Inr False \<Rightarrow> Inr this
      | Inr True \<Rightarrow>
          (let (content, this') = getArrayRecords srt this name False
           in Inr (writeArrayEntries this' name
                     (reduced srt by_count persistAmount (merged content e increment now)))))"

subsection \<open>The statistics handlers\<close>

text \<open>\<^verbatim>\<open>sendRecentTexts\<close>, \<^verbatim>\<open>sendRecentPaths\<close>, \<^verbatim>\<open>sendRecentSizes\<close> (lines 735-754).\<close>

definition sendRecentTexts :: "sorter \<Rightarrow> StateManagement \<Rightarrow> listing \<times> StateManagement" where
  "sendRecentTexts srt this = getArrayEntries srt this ''texts'' True True"

definition sendRecentPaths :: "sorter \<Rightarrow> StateManagement \<Rightarrow> listing \<times> StateManagement" where
  "sendRecentPaths srt this = getArrayEntries srt this ''paths'' True True"

definition sendRecentSizes :: "sorter \<Rightarrow> StateManagement \<Rightarrow> listing \<times> StateManagement" where
  "sendRecentSizes srt this = getArrayEntries srt this ''sizes'' True True"

text \<open>
  \<^verbatim>\<open>sendTopSizes\<close> (lines 761-765) and \<^verbatim>\<open>sendTopReferences\<close> (lines 772-776).
  \<^verbatim>\<open>Object.assign({ n: x.count }, x.entry)\<close> is the count with the properties of the entry
  (\<open>w\<close> and \<open>h\<close> of a size); the array that is sorted is the one \<open>getArrayEntries\<close> returned.
\<close>

datatype topSize = TopSize (size_n: int) (size_props: jsvalue)

datatype topReference = TopReference (reference: jsvalue) (reference_n: int)

definition sendTopSizes :: "sorter \<Rightarrow> StateManagement \<Rightarrow> topSize list \<times> StateManagement" where
  "sendTopSizes srt this =
     (let (content, this') = getArrayRecords srt this ''sizes-all'' False;
          sizes = srt count_less content
      in (map (\<lambda>x. TopSize (count_r x) (entry x)) sizes, inPlace this' ''sizes-all'' sizes))"

definition sendTopReferences ::
  "sorter \<Rightarrow> StateManagement \<Rightarrow> topReference list \<times> StateManagement" where
  "sendTopReferences srt this =
     (let (content, this') = getArrayRecords srt this ''references'' False;
          refs = srt count_less content
      in (map (\<lambda>x. TopReference (entry x) (count_r x)) refs, inPlace this' ''references'' refs))"


text \<open>\<^verbatim>\<open>clearAllStats\<close> (lines 814-823).\<close>

definition clearAllStats :: "StateManagement \<Rightarrow> StateManagement" where
  "clearAllStats this =
     foldl removeArrayEntries this
       [''hits'', ''paths'', ''texts'', ''sizes'', ''sizes-all'', ''references'']"

subsection \<open>Sequences of calls\<close>

text \<open>
  One insert into the collection \<open>name\<close> with the persisted amount \<open>k\<close>: the entry, the
  \<open>increment\<close> flag and the clock reading of the call. A call that throws leaves the
  store as it was, and the next call finds it so.
\<close>

datatype insertion =
  ArrayEntry (ins_entry: jsvalue) (ins_increment: bool) (ins_now: int)
| ArrayCountEntry (ins_entry: jsvalue) (ins_increment: bool) (ins_now: int)

definition insert1 ::
  "sorter \<Rightarrow> string \<Rightarrow> nat option \<Rightarrow> StateManagement \<Rightarrow> insertion \<Rightarrow> StateManagement" where
  "insert1 srt name k this i =
     (case (case i of
              ArrayEntry e inc now \<Rightarrow> addArrayEntry srt this name e k inc now
            | ArrayCountEntry e inc now \<Rightarrow> addArrayCountEntry srt this name e k inc now) of
        Inl err \<Rightarrow> this
      | Inr this' \<Rightarrow> this')"

definition inserts ::
  "sorter \<Rightarrow> string \<Rightarrow> nat option \<Rightarrow> StateManagement \<Rightarrow> insertion list \<Rightarrow> StateManagement" where
  "inserts srt name k this is = foldl (insert1 srt name k) this is"

text \<open>A restart: a new instance over the same directory, with the same setting.\<close>

definition restart :: "StateManagement \<Rightarrow> StateManagement" where
  "restart this = new_StateManagement (files this) (filePersistance this)"

subsection \<open>Counting the inserts\<close>

text \<open>
  The entries of a sequence of inserts that \<open>canAdd\<close> accepts; the sequence fits the
  persisted amount when it is null or no smaller than the number of these entries, so
  that no insert of the sequence evicts a record.
\<close>

definition accepted :: "insertion list \<Rightarrow> jsvalue set" where
  "accepted is = {e \<in> ins_entry ` set is. canAdd e = Inr True}"

definition fits :: "nat option \<Rightarrow> insertion list \<Rightarrow> bool" where
  "fits k is = (case k of None \<Rightarrow> True | Some c \<Rightarrow> card (accepted is) \<le> c)"

text \<open>
  A collection counts a sequence of inserts: its entries are pairwise distinct, they are
  the accepted entries of the sequence, and each record counts the inserts of its entry.
\<close>

definition counted :: "insertion list \<Rightarrow> stat list \<Rightarrow> bool" where
  "counted is content =
     (distinct (map entry content) \<and> entry ` set content = accepted is
      \<and> (\<forall>r\<in>set content. count_r r = int (count_list (map ins_entry is) (entry r))))"

text \<open>
  Twelve requests of eleven paths, the first path requested again at the end; the same
  path requested three times; and two requests whose parameter \<^verbatim>\<open>text\<close> is an object with
  the properties \<^verbatim>\<open>a\<close> and \<^verbatim>\<open>b\<close>, written in the one order and then in the other
  (\<^verbatim>\<open>?text[a]=1&text[b]=2\<close> and \<^verbatim>\<open>?text[b]=2&text[a]=1\<close>), as line 712 records it.
\<close>

definition twelve_paths :: "insertion list" where
  "twelve_paths =
     [ArrayEntry (Str ''/img/1/1'') True 1, ArrayEntry (Str ''/img/2/2'') True 2,
      ArrayEntry (Str ''/img/3/3'') True 3, ArrayEntry (Str ''/img/4/4'') True 4,
      ArrayEntry (Str ''/img/5/5'') True 5, ArrayEntry (Str ''/img/6/6'') True 6,
      ArrayEntry (Str ''/img/7/7'') True 7, ArrayEntry (Str ''/img/8/8'') True 8,
      ArrayEntry (Str ''/img/9/9'') True 9, ArrayEntry (Str ''/img/10/10'') True 10,
      ArrayEntry (Str ''/img/11/11'') True 11, ArrayEntry (Str ''/img/1/1'') True 12]"

definition same_path_thrice :: "insertion list" where
  "same_path_thrice =
     [ArrayEntry (Str ''/img/100/100'') True 1, ArrayEntry (Str ''/img/100/100'') True 2,
      ArrayEntry (Str ''/img/100/100'') True 3]"

definition reordered_texts :: "insertion list" where
  "reordered_texts =
     [ArrayEntry (Obj [(''a'', Text ''1''), (''b'', Text ''2'')]) True 1,
      ArrayEntry (Obj [(''b'', Text ''2''), (''a'', Text ''1'')]) True 2]"

subsection \<open>Example stores\<close>

text \<open>
  A memory-only store after the text \<^verbatim>\<open>old\<close> and then the text \<^verbatim>\<open>new\<close> were recorded,
  as \<^verbatim>\<open>saveAllImageStats\<close> records a text (line 712).
\<close>

definition two_texts :: StateManagement where
  "two_texts =
     inserts insertion_sort ''texts'' (Some 10) (new_StateManagement Map.empty False)
       [ArrayEntry (Str ''old'') True 1, ArrayEntry (Str ''new'') True 2]"


text \<open>
  A memory-only store whose collection \<^verbatim>\<open>paths\<close>, kept at two records, holds two paths.
\<close>

definition two_paths :: StateManagement where
  "two_paths =
     inserts insertion_sort ''paths'' (Some 2) (new_StateManagement Map.empty False)
       [ArrayEntry (Str ''/img/1/1'') True 1, ArrayEntry (Str ''/img/2/2'') True 2]"

text \<open>
  A memory-only store whose collection \<^verbatim>\<open>sizes-all\<close>, kept at two records, holds a size
  that was served five times and a size that was served once.
\<close>

definition counted_sizes :: StateManagement where
  "counted_sizes =
     inserts insertion_sort ''sizes-all'' (Some 2) (new_StateManagement Map.empty False)
       [ArrayCountEntry (Size 100 100) True 1, ArrayCountEntry (Size 100 100) True 2,
        ArrayCountEntry (Size 100 100) True 3, ArrayCountEntry (Size 100 100) True 4,
        ArrayCountEntry (Size 100 100) True 5, ArrayCountEntry (Size 200 200) True 6]"

text \<open>
  A memory-only store after three requests, as lines 714 and 717 record them: the size
  100 x 100 once and then the size 200 x 200 twice, the first from one referrer and the
  others from a second one.
\<close>

definition three_requests :: StateManagement where
  "three_requests =
     inserts insertion_sort ''references'' (Some 10)
       (inserts insertion_sort ''sizes-all'' (Some 10) (new_StateManagement Map.empty False)
          [ArrayCountEntry (Size 100 100) True 1, ArrayCountEntry (Size 200 200) True 2,
           ArrayCountEntry (Size 200 200) True 3])
       [ArrayCountEntry (Str ''http://a.example/'') True 1,
        ArrayCountEntry (Str ''http://b.example/'') True 2,
        ArrayCountEntry (Str ''http://b.example/'') True 3]"

text \<open>
  A store with file persistence, as a new instance finds it over a directory whose file
  \<^verbatim>\<open>paths.json\<close> holds one record.
\<close>

definition path_on_disk :: StateManagement where
  "path_on_disk =
     new_StateManagement
       [''paths'' \<mapsto> [\<lparr>entry = Str ''/img/100/100'', time = 5, count_r = 1\<rparr>]] True"

section \<open>JSON texts are read in one way\<close>

text \<open>
  Two entries have the same JSON text exactly when they are the same value, the order of
  the properties of an object included: a number ends where its digits stop, a quoted
  string at its first quote that is not escaped, and no escape begins another.
\<close>

lemma digit_inj: "a < 16 \<Longrightarrow> b < 16 \<Longrightarrow> digit a = digit b \<Longrightarrow> a = b"
proof -
  assume a: "a < 16" and b: "b < 16" and e: "digit a = digit b"
  have d: "distinct ''0123456789abcdef''" by simp
  have "a < length ''0123456789abcdef''" "b < length ''0123456789abcdef''" using a b by simp_all
  with d e show "a = b" unfolding digit_def by (simp only: nth_eq_iff_index_eq)
qed

lemma is_digit_digit: "d < 10 \<Longrightarrow> is_digit (digit d)"
proof -
  assume "d < 10"
  then have "d \<in> {0,1,2,3,4,5,6,7,8,9}" by auto
  then show ?thesis by (auto simp: is_digit_def digit_def)
qed

lemma show_nat_digits: "\<forall>c\<in>set (show_nat n). is_digit c"
proof (induction n rule: show_nat.induct)
  case (1 n)
  show ?case
  proof (cases "n < 10")
    case True
    then show ?thesis by (subst show_nat.simps) (simp add: is_digit_digit)
  next
    case False
    then have "\<forall>c\<in>set (show_nat (n div 10)). is_digit c" using 1 by simp
    moreover have "is_digit (digit (n mod 10))" by (rule is_digit_digit) simp
    ultimately show ?thesis using False by (subst show_nat.simps) simp
  qed
qed

lemma show_nat_nonempty: "show_nat n \<noteq> []"
  by (subst show_nat.simps) simp

lemma show_nat_inj: "show_nat a = show_nat b \<Longrightarrow> a = b"
proof (induction a arbitrary: b rule: show_nat.induct)
  case (1 a)
  show ?case
  proof (cases "a < 10")
    case True
    then have a: "show_nat a = [digit a]" by (subst show_nat.simps) simp
    show ?thesis
    proof (cases "b < 10")
      case True
      then have "show_nat b = [digit b]" by (subst show_nat.simps) simp
      with a "1.prems" have "digit a = digit b" by simp
      then show ?thesis using \<open>a < 10\<close> True by (intro digit_inj) simp_all
    next
      case False
      then have "show_nat b = show_nat (b div 10) @ [digit (b mod 10)]"
        by (subst show_nat.simps) simp
      with a "1.prems" have "show_nat (b div 10) = []" by simp
      then show ?thesis using show_nat_nonempty by blast
    qed
  next
    case False
    then have a: "show_nat a = show_nat (a div 10) @ [digit (a mod 10)]"
      by (subst show_nat.simps) simp
    show ?thesis
    proof (cases "b < 10")
      case True
      then have "show_nat b = [digit b]" by (subst show_nat.simps) simp
      with a "1.prems" have "show_nat (a div 10) = []" by simp
      then show ?thesis using show_nat_nonempty by blast
    next
      case b: False
      then have "show_nat b = show_nat (b div 10) @ [digit (b mod 10)]"
        by (subst show_nat.simps) simp
      with a "1.prems" have e: "show_nat (a div 10) = show_nat (b div 10)"
        "digit (a mod 10) = digit (b mod 10)" by simp_all
      from e(1) have "a div 10 = b div 10" using "1.IH"[OF False] by simp
      moreover from e(2) have "a mod 10 = b mod 10" by (intro digit_inj) simp_all
      ultimately show ?thesis by (metis div_mult_mod_eq)
    qed
  qed
qed

lemma show_nat_delimited:
  assumes "show_nat a @ c # r = show_nat b @ d # s" "\<not> is_digit c" "\<not> is_digit d"
  shows "a = b \<and> c # r = d # s"
proof -
  have "takeWhile is_digit (show_nat a @ c # r) = show_nat a"
    using show_nat_digits[of a] assms(2) by (simp add: takeWhile_append2)
  moreover have "takeWhile is_digit (show_nat b @ d # s) = show_nat b"
    using show_nat_digits[of b] assms(3) by (simp add: takeWhile_append2)
  ultimately have "show_nat a = show_nat b" using assms(1) by simp
  then show ?thesis using assms(1) show_nat_inj by auto
qed

lemma hd_show_nat: "is_digit (hd (show_nat n))"
  using show_nat_digits[of n] show_nat_nonempty[of n] by (cases "show_nat n") simp_all

lemma show_int_delimited:
  assumes e: "show_int a @ c # r = show_int b @ d # s" and c: "\<not> is_digit c" and d: "\<not> is_digit d"
  shows "a = b \<and> c # r = d # s"
proof -
  have minus: "\<not> is_digit (CHR ''-'')" by (simp add: is_digit_def)
  have no: "CHR ''-'' # xs \<noteq> show_nat n @ ys" for xs n ys
  proof
    assume "CHR ''-'' # xs = show_nat n @ ys"
    then have "hd (show_nat n) = CHR ''-''"
      using show_nat_nonempty[of n] by (cases "show_nat n") simp_all
    with hd_show_nat[of n] minus show False by simp
  qed
  show ?thesis
  proof (cases "a < 0")
    case a: True
    show ?thesis
    proof (cases "b < 0")
      case True
      with a e have "show_nat (nat (- a)) @ c # r = show_nat (nat (- b)) @ d # s"
        by (simp add: show_int_def)
      from show_nat_delimited[OF this c d]
      have "nat (- a) = nat (- b)" and rest: "c # r = d # s" by simp_all
      with a True have "a = b" by linarith
      with rest show ?thesis by simp
    next
      case False
      with a e have "CHR ''-'' # (show_nat (nat (- a)) @ c # r) = show_nat (nat b) @ d # s"
        by (simp add: show_int_def)
      with no show ?thesis by blast
    qed
  next
    case a: False
    show ?thesis
    proof (cases "b < 0")
      case True
      with a e have "CHR ''-'' # (show_nat (nat (- b)) @ d # s) = show_nat (nat a) @ c # r"
        by (simp add: show_int_def)
      with no show ?thesis by blast
    next
      case False
      with a e have "show_nat (nat a) @ c # r = show_nat (nat b) @ d # s"
        by (simp add: show_int_def)
      from show_nat_delimited[OF this c d]
      have "nat a = nat b" and rest: "c # r = d # s" by simp_all
      with a False have "a = b" by linarith
      with rest show ?thesis by simp
    qed
  qed
qed

lemma escape_nonempty: "escape c \<noteq> []"
  by (simp add: escape_def)

lemma hd_escape: "hd (escape c) \<noteq> CHR 0x22"
  by (simp add: escape_def)

lemma control_inj:
  assumes "(of_char c :: nat) < 32" "(of_char c' :: nat) < 32"
    and "digit (of_char c div 16) = digit (of_char c' div 16)"
    and "digit (of_char c mod 16) = digit (of_char c' mod 16)"
  shows "c = c'"
proof -
  have "(of_char c :: nat) div 16 = of_char c' div 16"
    using assms(1,2,3) by (intro digit_inj) simp_all
  moreover have "(of_char c :: nat) mod 16 = of_char c' mod 16"
    using assms(4) by (intro digit_inj) simp_all
  ultimately have "(of_char c :: nat) = of_char c'" by (metis div_mult_mod_eq)
  then show ?thesis by simp
qed

lemma escape_prefix:
  assumes "escape c @ xs = escape c' @ ys"
  shows "c = c' \<and> xs = ys"
  using assms control_inj[of c c']
  by (auto simp: escape_def split: if_splits)

lemma escaped_prefix:
  "concat (map escape s) @ CHR 0x22 # r = concat (map escape s') @ CHR 0x22 # r'
     \<Longrightarrow> s = s' \<and> r = r'"
proof (induction s arbitrary: s')
  case Nil
  show ?case
  proof (cases s')
    case Nil
    with Nil.prems show ?thesis by simp
  next
    case (Cons c' t')
    with Nil.prems have "hd (escape c') = CHR 0x22"
      using escape_nonempty[of c'] by (cases "escape c'") simp_all
    with hd_escape show ?thesis by blast
  qed
next
  case (Cons c t)
  show ?case
  proof (cases s')
    case Nil
    with Cons.prems have "hd (escape c) = CHR 0x22"
      using escape_nonempty[of c] by (cases "escape c") simp_all
    with hd_escape show ?thesis by blast
  next
    case c': (Cons c' t')
    with Cons.prems
    have "escape c @ (concat (map escape t) @ CHR 0x22 # r)
            = escape c' @ (concat (map escape t') @ CHR 0x22 # r')" by simp
    from escape_prefix[OF this]
    have "c = c'" and "concat (map escape t) @ CHR 0x22 # r = concat (map escape t') @ CHR 0x22 # r'"
      by simp_all
    with Cons.IH[of t'] c' show ?thesis by simp
  qed
qed

lemma quote_prefix: "quote s @ r = quote s' @ r' \<Longrightarrow> s = s' \<and> r = r'"
  using escaped_prefix[of s r s' r'] by (simp add: quote_def)

lemma quote_inj: "quote s = quote s' \<Longrightarrow> s = s'"
  using quote_prefix[of s "[]" s' "[]"] by simp

lemma hd_quote: "hd (quote s @ r) = CHR 0x22"
  by (simp add: quote_def)

lemma hd_show_int: "hd (show_int n @ r) \<noteq> CHR 0x22"
proof -
  have "\<not> is_digit (CHR 0x22)" by (simp add: is_digit_def)
  moreover have "hd (show_nat m @ r) = hd (show_nat m)" for m
    using show_nat_nonempty[of m] by simp
  ultimately have "hd (show_nat m @ r) \<noteq> CHR 0x22" for m
    using hd_show_nat[of m] by metis
  then show ?thesis by (simp add: show_int_def)
qed

lemma atom_delimited:
  assumes e: "atom_text v @ c # r = atom_text v' @ d # s"
    and c: "\<not> is_digit c" and d: "\<not> is_digit d"
  shows "v = v' \<and> c # r = d # s"
proof (cases v)
  case (Num n)
  show ?thesis
  proof (cases v')
    case n': (Num n')
    with Num e show ?thesis using show_int_delimited[OF _ c d] by (simp add: atom_text_def)
  next
    case (Text t')
    with Num e have "show_int n @ c # r = quote t' @ d # s" by (simp add: atom_text_def)
    then have "hd (show_int n @ c # r) = CHR 0x22" using hd_quote by simp
    with hd_show_int show ?thesis by blast
  qed
next
  case (Text t)
  show ?thesis
  proof (cases v')
    case (Num n')
    with Text e have "quote t @ c # r = show_int n' @ d # s" by (simp add: atom_text_def)
    then have "hd (show_int n' @ d # s) = CHR 0x22" using hd_quote by metis
    with hd_show_int show ?thesis by blast
  next
    case t': (Text t')
    with Text e show ?thesis using quote_prefix[of t "c # r" t' "d # s"]
      by (simp add: atom_text_def)
  qed
qed

lemma member_delimited:
  assumes e: "member kv @ c # r = member kv' @ d # s"
    and c: "\<not> is_digit c" and d: "\<not> is_digit d"
  shows "kv = kv' \<and> c # r = d # s"
proof -
  from e have "quote (fst kv) @ (CHR '':'' # atom_text (snd kv) @ c # r)
                 = quote (fst kv') @ (CHR '':'' # atom_text (snd kv') @ d # s)"
    by (simp add: member_def)
  from quote_prefix[OF this]
  have k: "fst kv = fst kv'" and "atom_text (snd kv) @ c # r = atom_text (snd kv') @ d # s"
    by simp_all
  from atom_delimited[OF this(2) c d] k show ?thesis by (simp add: prod_eq_iff)
qed

lemma members_delimited:
  "joined (map member kvs) @ CHR ''}'' # r = joined (map member kvs') @ CHR ''}'' # r'
     \<Longrightarrow> kvs = kvs' \<and> r = r'"
proof (induction kvs arbitrary: kvs')
  case Nil
  show ?case
  proof (cases kvs')
    case Nil
    with Nil.prems show ?thesis by simp
  next
    case (Cons kv' t')
    have h: "hd (joined (map member (kv' # t')) @ CHR ''}'' # r') = CHR 0x22"
      by (cases t') (simp_all add: member_def quote_def)
    from Nil.prems Cons
    have "CHR ''}'' # r = joined (map member (kv' # t')) @ CHR ''}'' # r'" by simp
    then have "hd (CHR ''}'' # r) = hd (joined (map member (kv' # t')) @ CHR ''}'' # r')"
      by (rule arg_cong)
    with h show ?thesis by simp
  qed
next
  case (Cons kv t)
  have nd: "\<not> is_digit (CHR '','')" "\<not> is_digit (CHR ''}'')" by (simp_all add: is_digit_def)
  show ?case
  proof (cases kvs')
    case Nil
    have "hd (joined (map member (kv # t)) @ CHR ''}'' # r) = CHR 0x22"
      by (cases t) (simp_all add: member_def quote_def)
    with Cons.prems Nil show ?thesis by simp
  next
    case kvs': (Cons kv' t')
    obtain c rest where l: "joined (map member (kv # t)) @ CHR ''}'' # r = member kv @ c # rest"
      "\<not> is_digit c"
      "rest = (if t = [] then r else joined (map member t) @ CHR ''}'' # r)"
      "c = (if t = [] then CHR ''}'' else CHR '','')"
      using nd by (cases t) simp_all
    obtain c' rest' where l': "joined (map member (kv' # t')) @ CHR ''}'' # r' = member kv' @ c' # rest'"
      "\<not> is_digit c'"
      "rest' = (if t' = [] then r' else joined (map member t') @ CHR ''}'' # r')"
      "c' = (if t' = [] then CHR ''}'' else CHR '','')"
      using nd by (cases t') simp_all
    from Cons.prems kvs' l(1) l'(1) have "member kv @ c # rest = member kv' @ c' # rest'" by simp
    from member_delimited[OF this l(2) l'(2)] have kv: "kv = kv'" and cc: "c = c'" and rr: "rest = rest'"
      by simp_all
    from cc l(4) l'(4) have same: "(t = []) = (t' = [])" by (auto split: if_splits)
    show ?thesis
    proof (cases "t = []")
      case True
      with same rr l(3) l'(3) kv kvs' show ?thesis by simp
    next
      case False
      with same rr l(3) l'(3)
      have "joined (map member t) @ CHR ''}'' # r = joined (map member t') @ CHR ''}'' # r'" by simp
      from Cons.IH[OF this] kv kvs' show ?thesis by simp
    qed
  qed
qed

lemma elements_delimited:
  "joined (map quote xs) @ CHR '']'' # r = joined (map quote xs') @ CHR '']'' # r'
     \<Longrightarrow> xs = xs' \<and> r = r'"
proof (induction xs arbitrary: xs')
  case Nil
  show ?case
  proof (cases xs')
    case Nil
    with Nil.prems show ?thesis by simp
  next
    case (Cons x' t')
    have h: "hd (joined (map quote (x' # t')) @ CHR '']'' # r') = CHR 0x22"
      by (cases t') (simp_all add: quote_def)
    from Nil.prems Cons
    have "CHR '']'' # r = joined (map quote (x' # t')) @ CHR '']'' # r'" by simp
    then have "hd (CHR '']'' # r) = hd (joined (map quote (x' # t')) @ CHR '']'' # r')"
      by (rule arg_cong)
    with h show ?thesis by simp
  qed
next
  case (Cons x t)
  show ?case
  proof (cases xs')
    case Nil
    have "hd (joined (map quote (x # t)) @ CHR '']'' # r) = CHR 0x22"
      by (cases t) (simp_all add: quote_def)
    with Cons.prems Nil show ?thesis by simp
  next
    case xs': (Cons x' t')
    obtain c rest where l: "joined (map quote (x # t)) @ CHR '']'' # r = quote x @ c # rest"
      "rest = (if t = [] then r else joined (map quote t) @ CHR '']'' # r)"
      "c = (if t = [] then CHR '']'' else CHR '','')"
      by (cases t) simp_all
    obtain c' rest' where l': "joined (map quote (x' # t')) @ CHR '']'' # r' = quote x' @ c' # rest'"
      "rest' = (if t' = [] then r' else joined (map quote t') @ CHR '']'' # r')"
      "c' = (if t' = [] then CHR '']'' else CHR '','')"
      by (cases t') simp_all
    from Cons.prems xs' l(1) l'(1) have "quote x @ c # rest = quote x' @ c' # rest'" by simp
    from quote_prefix[OF this] have x: "x = x'" and cc: "c = c'" and rr: "rest = rest'"
      by simp_all
    from cc l(3) l'(3) have same: "(t = []) = (t' = [])" by (auto split: if_splits)
    show ?thesis
    proof (cases "t = []")
      case True
      with same rr l(2) l'(2) x xs' show ?thesis by simp
    next
      case False
      with same rr l(2) l'(2)
      have "joined (map quote t) @ CHR '']'' # r = joined (map quote t') @ CHR '']'' # r'" by simp
      from Cons.IH[OF this] x xs' show ?thesis by simp
    qed
  qed
qed

lemma stringify_eq_iff [simp]: "stringify a = stringify b \<longleftrightarrow> a = b"
proof
  assume e: "stringify a = stringify b"
  show "a = b"
  proof (cases a)
    case Undefined
    with e show ?thesis by (cases b) (simp_all add: stringify_def)
  next
    case Null
    with e show ?thesis by (cases b) (simp_all add: stringify_def quote_def)
  next
    case (Str s)
    with e show ?thesis using quote_inj[of s]
      by (cases b) (auto simp: stringify_def quote_def)
  next
    case (Arr xs)
    show ?thesis
    proof (cases b)
      case (Arr xs')
      with \<open>a = Arr xs\<close> e
      have "joined (map quote xs) @ CHR '']'' # [] = joined (map quote xs') @ CHR '']'' # []"
        by (simp add: stringify_def)
      from elements_delimited[OF this] Arr \<open>a = Arr xs\<close> show ?thesis by simp
    qed (use \<open>a = Arr xs\<close> e in \<open>simp_all add: stringify_def quote_def\<close>)
  next
    case (Obj kvs)
    show ?thesis
    proof (cases b)
      case (Obj kvs')
      with \<open>a = Obj kvs\<close> e
      have "joined (map member kvs) @ CHR ''}'' # [] = joined (map member kvs') @ CHR ''}'' # []"
        by (simp add: stringify_def)
      from members_delimited[OF this] Obj \<open>a = Obj kvs\<close> show ?thesis by simp
    qed (use \<open>a = Obj kvs\<close> e in \<open>simp_all add: stringify_def quote_def\<close>)
  qed
qed simp

section \<open>Sorting lemmas\<close>

text \<open>Consequences of consistency.\<close>

lemma consistent_refl:
  assumes "consistent cmp S" "a \<in> S"
  shows "cmp a a = 0"
proof -
  from assms(1) have "\<forall>a\<in>S. cmp a a = 0"
    unfolding consistent_def by (elim conjE)
  with assms(2) show ?thesis by blast
qed

lemma consistent_sym:
  assumes "consistent cmp S" "a \<in> S" "b \<in> S" "cmp a b = 0"
  shows "cmp b a = 0"
proof -
  from assms(1) have "\<forall>a\<in>S. \<forall>b\<in>S. cmp a b = 0 \<longrightarrow> cmp b a = 0"
    unfolding consistent_def by (elim conjE)
  then have "cmp a b = 0 \<longrightarrow> cmp b a = 0"
    using assms(2,3) by blast
  with assms(4) show ?thesis by simp
qed

lemma consistent_trans_less:
  assumes "consistent cmp S" "a \<in> S" "b \<in> S" "c \<in> S" "cmp a b < 0" "cmp b c < 0"
  shows "cmp a c < 0"
proof -
  from assms(1)
  have "\<forall>a\<in>S. \<forall>b\<in>S. \<forall>c\<in>S. cmp a b < 0 \<and> cmp b c < 0 \<longrightarrow> cmp a c < 0"
    unfolding consistent_def by (elim conjE)
  then have "cmp a b < 0 \<and> cmp b c < 0 \<longrightarrow> cmp a c < 0"
    using assms(2-4) by blast
  with assms(5,6) show ?thesis by simp
qed

lemma consistent_trans_greater:
  assumes "consistent cmp S" "a \<in> S" "b \<in> S" "c \<in> S" "cmp a b > 0" "cmp b c > 0"
  shows "cmp a c > 0"
proof -
  from assms(1)
  have "\<forall>a\<in>S. \<forall>b\<in>S. \<forall>c\<in>S. cmp a b > 0 \<and> cmp b c > 0 \<longrightarrow> cmp a c > 0"
    unfolding consistent_def by (elim conjE)
  then have "cmp a b > 0 \<and> cmp b c > 0 \<longrightarrow> cmp a c > 0"
    using assms(2-4) by blast
  with assms(5,6) show ?thesis by simp
qed

lemma consistent_flip:
  assumes con: "consistent cmp S" and S: "a \<in> S" "b \<in> S" and ab: "cmp a b \<ge> 0"
  shows "cmp b a \<le> 0"
proof (cases "cmp a b = 0")
  case True
  then show ?thesis using consistent_sym[OF con S] by simp
next
  case False
  with ab have pos: "cmp a b > 0" by simp
  show ?thesis
  proof (rule ccontr)
    assume "\<not> cmp b a \<le> 0"
    then have "cmp b a > 0" by simp
    then have "cmp a a > 0" using consistent_trans_greater[OF con S(1) S(2) S(1) pos] by simp
    then show False using consistent_refl[OF con S(1)] by simp
  qed
qed

lemma consistent_less_le:
  assumes con: "consistent cmp S" and S: "a \<in> S" "b \<in> S" "c \<in> S"
    and ab: "cmp a b < 0" and bc: "cmp b c \<le> 0"
  shows "cmp a c \<le> 0"
proof (cases "cmp b c < 0")
  case True
  then show ?thesis using consistent_trans_less[OF con S ab] by simp
next
  case False
  with bc have bc0: "cmp b c = 0" by simp
  have cb0: "cmp c b = 0" using consistent_sym[OF con S(2) S(3) bc0] .
  show ?thesis
  proof (rule ccontr)
    assume "\<not> cmp a c \<le> 0"
    then have ac: "cmp a c \<ge> 0" "cmp a c \<noteq> 0" by simp_all
    have "cmp c a \<le> 0" using consistent_flip[OF con S(1) S(3) ac(1)] .
    moreover have "cmp c a \<noteq> 0"
      using consistent_sym[OF con S(3) S(1)] ac(2) by auto
    ultimately have "cmp c a < 0" by simp
    then have "cmp c b < 0" using consistent_trans_less[OF con S(3) S(1) S(2) _ ab] by simp
    with cb0 show False by simp
  qed
qed

text \<open>The insertion sort conforms; what a conforming sort gives the program.\<close>

lemma mset_insert_sorted: "mset (insert_sorted cmp x ys) = add_mset x (mset ys)"
  by (induction ys) simp_all

lemma set_insert_sorted: "set (insert_sorted cmp x ys) = insert x (set ys)"
  by (induction ys) auto

lemma mset_foldl_insert:
  "mset (foldl (\<lambda>acc x. insert_sorted cmp x acc) acc xs) = mset acc + mset xs"
  by (induction xs arbitrary: acc) (simp_all add: mset_insert_sorted)

lemma mset_insertion_sort: "mset (insertion_sort cmp xs) = mset xs"
  by (simp add: insertion_sort_def mset_foldl_insert)

lemma sorted_insert_sorted:
  assumes con: "consistent cmp S" and x: "x \<in> S"
  shows "set ys \<subseteq> S \<Longrightarrow> sorted_wrt (\<lambda>a b. cmp a b \<le> 0) ys
    \<Longrightarrow> sorted_wrt (\<lambda>a b. cmp a b \<le> 0) (insert_sorted cmp x ys)"
proof (induction ys)
  case Nil
  show ?case by simp
next
  case (Cons y ys)
  have y: "y \<in> S" and ys: "set ys \<subseteq> S" using Cons.prems(1) by simp_all
  have sorted_ys: "sorted_wrt (\<lambda>a b. cmp a b \<le> 0) ys"
    and y_le: "\<forall>z\<in>set ys. cmp y z \<le> 0" using Cons.prems(2) by simp_all
  show ?case
  proof (cases "cmp x y < 0")
    case True
    have "cmp x z \<le> 0" if "z \<in> set ys" for z
    proof -
      have "z \<in> S" using that ys by blast
      moreover have "cmp y z \<le> 0" using that y_le by blast
      ultimately show ?thesis using consistent_less_le[OF con x y _ True] by blast
    qed
    with True Cons.prems(2) show ?thesis by simp
  next
    case False
    then have "cmp x y \<ge> 0" by simp
    then have "cmp y x \<le> 0" by (rule consistent_flip[OF con x y])
    moreover have "sorted_wrt (\<lambda>a b. cmp a b \<le> 0) (insert_sorted cmp x ys)"
      using Cons.IH[OF ys sorted_ys] .
    ultimately show ?thesis using False y_le by (simp add: set_insert_sorted)
  qed
qed

lemma sorted_foldl_insert:
  assumes con: "consistent cmp S"
  shows "set xs \<subseteq> S \<Longrightarrow> set acc \<subseteq> S \<Longrightarrow> sorted_wrt (\<lambda>a b. cmp a b \<le> 0) acc
    \<Longrightarrow> sorted_wrt (\<lambda>a b. cmp a b \<le> 0) (foldl (\<lambda>acc x. insert_sorted cmp x acc) acc xs)"
proof (induction xs arbitrary: acc)
  case Nil
  then show ?case by simp
next
  case (Cons x xs)
  have x: "x \<in> S" and xs: "set xs \<subseteq> S" using Cons.prems(1) by simp_all
  have "sorted_wrt (\<lambda>a b. cmp a b \<le> 0) (insert_sorted cmp x acc)"
    using sorted_insert_sorted[OF con x Cons.prems(2) Cons.prems(3)] .
  moreover have "set (insert_sorted cmp x acc) \<subseteq> S"
    using Cons.prems(2) x by (simp add: set_insert_sorted)
  ultimately show ?case using Cons.IH[OF xs] by simp
qed

lemma conforming_insertion_sort: "conforming_sort insertion_sort"
  unfolding conforming_sort_def
proof (intro allI conjI impI)
  fix cmp :: "stat \<Rightarrow> stat \<Rightarrow> int" and xs
  show "mset (insertion_sort cmp xs) = mset xs" by (rule mset_insertion_sort)
next
  fix cmp :: "stat \<Rightarrow> stat \<Rightarrow> int" and xs
  assume "consistent cmp (set xs)"
  then show "sorted_wrt (\<lambda>a b. cmp a b \<le> 0) (insertion_sort cmp xs)"
    unfolding insertion_sort_def by (rule sorted_foldl_insert) simp_all
qed

lemma consistent_by_time: "consistent by_time S"
  unfolding consistent_def by_time_def by simp

lemma consistent_by_count: "consistent by_count S"
  unfolding consistent_def
proof (intro conjI ballI impI)
  fix a show "by_count a a = 0" by (simp add: by_count_def)
next
  fix a b assume "by_count a b = 0" then show "by_count b a = 0"
    by (simp add: by_count_def split: if_splits)
next
  fix a b c assume "by_count a b = 0 \<and> by_count b c = 0" then show "by_count a c = 0"
    by (simp add: by_count_def split: if_splits)
next
  fix a b c assume "by_count a b < 0 \<and> by_count b c < 0" then show "by_count a c < 0"
    by (simp add: by_count_def split: if_splits)
next
  fix a b c assume "0 < by_count a b \<and> 0 < by_count b c" then show "0 < by_count a c"
    by (simp add: by_count_def split: if_splits)
qed

lemma sorted_wrt_last:
  assumes "sorted_wrt R ys" "x \<in> set ys" "R (last ys) (last ys)"
  shows "R x (last ys)"
proof -
  from assms(2) obtain i where i: "i < length ys" "ys ! i = x"
    by (auto simp: in_set_conv_nth)
  have ne: "ys \<noteq> []" using assms(2) by auto
  show ?thesis
  proof (cases "i = length ys - 1")
    case True
    with i ne assms(3) show ?thesis by (simp add: last_conv_nth)
  next
    case False
    with i have "i < length ys - 1" by simp
    then have "R (ys ! i) (ys ! (length ys - 1))"
      using assms(1) ne by (simp add: sorted_wrt_iff_nth_less)
    with i ne show ?thesis by (simp add: last_conv_nth)
  qed
qed

lemma conforming_mset: "conforming_sort srt \<Longrightarrow> mset (srt cmp xs) = mset xs"
  unfolding conforming_sort_def by blast

lemma conforming_sorted:
  "conforming_sort srt \<Longrightarrow> consistent cmp (set xs)
     \<Longrightarrow> sorted_wrt (\<lambda>a b. cmp a b \<le> 0) (srt cmp xs)"
  unfolding conforming_sort_def by blast

lemma conforming_length: "conforming_sort srt \<Longrightarrow> length (srt cmp xs) = length xs"
  using conforming_mset[of srt cmp xs] by (metis size_mset)

lemma conforming_set: "conforming_sort srt \<Longrightarrow> set (srt cmp xs) = set xs"
  using conforming_mset[of srt cmp xs] by (metis set_mset_mset)

lemma conforming_Nil: "conforming_sort srt \<Longrightarrow> srt cmp [] = []"
  using conforming_mset[of srt cmp "[]"] by simp

section \<open>Rejected values\<close>

text \<open>
  Claim C8: an insert of \<^verbatim>\<open>null\<close>, \<^verbatim>\<open>undefined\<close>, the empty string or an empty list
  is a silent no-op. For \<^verbatim>\<open>undefined\<close>, \<^verbatim>\<open>null\<close> and the empty string both insert
  functions return the store as it was. For the empty list they do not: \<open>canAdd\<close>
  reaches the test \<^verbatim>\<open>Array.isArray(entry) && a.length === 0\<close>, whose \<^verbatim>\<open>a\<close> is not
  declared, and the call ends in a ReferenceError (the store is not written).
\<close>

theorem insert_of_empty_values:
  "addArrayEntry srt this name Undefined k inc now = Inr this
   \<and> addArrayEntry srt this name Null k inc now = Inr this
   \<and> addArrayEntry srt this name (Str []) k inc now = Inr this
   \<and> addArrayEntry srt this name (Arr []) k inc now = Inl ReferenceError
   \<and> addArrayCountEntry srt this name Undefined k inc now = Inr this
   \<and> addArrayCountEntry srt this name Null k inc now = Inr this
   \<and> addArrayCountEntry srt this name (Str []) k inc now = Inr this
   \<and> addArrayCountEntry srt this name (Arr []) k inc now = Inl ReferenceError"
  by (simp add: addArrayEntry_def addArrayCountEntry_def canAdd_def isNil_def isArray_def)

section \<open>Reads and writes of the store\<close>

lemma getArrayRecords_unordered [simp]:
  "getArrayRecords srt this name False = (content_of this name, this)"
  by (simp add: getArrayRecords_def)

lemma content_of_write_same [simp]:
  "content_of (writeArrayEntries this name xs) name = xs"
  by (simp add: content_of_def writeArrayEntries_def)

lemma content_of_write_other [simp]:
  "other \<noteq> name \<Longrightarrow> content_of (writeArrayEntries this name xs) other = content_of this other"
  by (simp add: content_of_def writeArrayEntries_def)

lemma filePersistance_write [simp]:
  "filePersistance (writeArrayEntries this name xs) = filePersistance this"
  by (simp add: writeArrayEntries_def)

lemma addArrayEntry_accepted:
  "canAdd e = Inr True \<Longrightarrow>
   addArrayEntry srt this name e k inc now =
     Inr (writeArrayEntries this name
            (reduced srt by_time k (merged (content_of this name) e inc now)))"
  by (simp add: addArrayEntry_def)

lemma addArrayCountEntry_accepted:
  "canAdd e = Inr True \<Longrightarrow>
   addArrayCountEntry srt this name e k inc now =
     Inr (writeArrayEntries this name
            (reduced srt by_count k (merged (content_of this name) e inc now)))"
  by (simp add: addArrayCountEntry_def)

lemma canAdd_cases:
  "canAdd e = Inr True \<or> canAdd e = Inr False \<or> canAdd e = Inl ReferenceError"
  by (simp add: canAdd_def)


lemma fst_getArrayEntries:
  "fst (getArrayEntries srt this name mp order) =
     (let content = (if order then srt time_less (content_of this name) else content_of this name)
      in if mp then Entries (map entry content) else Records content)"
  by (simp add: getArrayEntries_def getArrayRecords_def Let_def)

lemma snd_getArrayEntries:
  "snd (getArrayEntries srt this name mp order) =
     (if order then inPlace this name (srt time_less (content_of this name)) else this)"
  by (simp add: getArrayEntries_def getArrayRecords_def Let_def)

lemma content_of_inPlace_other:
  "other \<noteq> name \<Longrightarrow> content_of (inPlace this name xs) other = content_of this other"
  by (simp add: inPlace_def content_of_def split: option.splits)

lemma content_of_inPlace_memory:
  assumes "conforming_sort srt" "\<not> filePersistance this"
  shows "content_of (inPlace this name (srt cmp (content_of this name))) name
           = srt cmp (content_of this name)"
proof (cases "localPersistance this name")
  case None
  then have "content_of this name = []" using assms(2) by (simp add: content_of_def)
  moreover have "inPlace this name xs = this" for xs
    using None by (simp add: inPlace_def shares_def)
  ultimately show ?thesis using conforming_Nil[OF assms(1)] by simp
next
  case (Some c)
  then show ?thesis using assms(2) by (simp add: inPlace_def shares_def content_of_def)
qed

lemma files_write:
  "filePersistance this \<Longrightarrow> files (writeArrayEntries this name xs) name = Some xs"
  by (simp add: writeArrayEntries_def)

lemma localPersistance_write:
  "localPersistance (writeArrayEntries this name xs) name = Some xs"
  by (simp add: writeArrayEntries_def)

lemma content_of_file:
  "filePersistance this \<Longrightarrow> files this name = Some xs
     \<Longrightarrow> content_of (this\<lparr>localPersistance := cache\<rparr>) name = xs"
  by (simp add: content_of_def)

lemma restart_eq: "restart this = this\<lparr>localPersistance := Map.empty\<rparr>"
  by (simp add: restart_def new_StateManagement_def)

section \<open>Reads in memory-only mode\<close>

text \<open>
  Claim C10: in memory-only mode a call of \<open>getArrayEntries\<close> adds, removes and changes
  no record of any collection: the multiset of the records of every collection is
  the same after the call. With \<open>order = true\<close> the call sorts the stored array itself:
  afterwards the collection is stored in the order the sort produced, which is the
  order of the array the call returns. With \<open>order = false\<close> the store is unchanged.
\<close>

theorem read_keeps_the_records:
  assumes "conforming_sort srt" and "\<not> filePersistance this"
  shows "(\<forall>coll. mset (content_of (snd (getArrayEntries srt this name mp order)) coll)
                  = mset (content_of this coll))
       \<and> content_of (snd (getArrayEntries srt this name mp True)) name
           = srt time_less (content_of this name)
       \<and> fst (getArrayEntries srt this name False True)
           = Records (content_of (snd (getArrayEntries srt this name False True)) name)
       \<and> snd (getArrayEntries srt this name mp False) = this"
proof -
  let ?sorted = "srt time_less (content_of this name)"
  have same: "content_of (inPlace this name ?sorted) name = ?sorted"
    using content_of_inPlace_memory[OF assms] .
  have "mset (content_of (snd (getArrayEntries srt this name mp order)) coll)
          = mset (content_of this coll)" for coll
  proof (cases "order \<and> coll = name")
    case True
    then show ?thesis using same conforming_mset[OF assms(1)]
      by (simp add: snd_getArrayEntries)
  next
    case False
    then show ?thesis by (auto simp: snd_getArrayEntries content_of_inPlace_other)
  qed
  then show ?thesis using same
    by (simp add: snd_getArrayEntries fst_getArrayEntries)
qed

theorem read_keeps_the_records_witness:
  "conforming_sort insertion_sort \<and> \<not> filePersistance two_texts
   \<and> content_of (snd (getArrayEntries insertion_sort two_texts ''texts'' True True)) ''texts''
       = insertion_sort time_less (content_of two_texts ''texts'')
   \<and> snd (getArrayEntries insertion_sort two_texts ''texts'' True False) = two_texts"
proof -
  have h: "\<not> filePersistance two_texts" by code_simp
  show ?thesis
    using conforming_insertion_sort h
      read_keeps_the_records[OF conforming_insertion_sort h, of "''texts''" True]
    by blast
qed

section \<open>Durable mode\<close>

lemma inPlace_file:
  "filePersistance this \<Longrightarrow> files this name = Some stored \<Longrightarrow> inPlace this name xs = this"
  by (simp add: inPlace_def shares_def)

lemma getArrayEntries_file:
  assumes "filePersistance this" and "files this name = Some stored"
  shows "getArrayEntries srt (this\<lparr>localPersistance := cache\<rparr>) name mp order =
           (if mp then Entries (map entry (if order then srt time_less stored else stored))
            else Records (if order then srt time_less stored else stored),
            this\<lparr>localPersistance := cache\<rparr>)"
proof -
  let ?t = "this\<lparr>localPersistance := cache\<rparr>"
  have fp: "filePersistance ?t" and f: "files ?t name = Some stored"
    using assms by simp_all
  have c: "content_of ?t name = stored" using content_of_file[OF assms] .
  show ?thesis
    by (simp add: getArrayEntries_def getArrayRecords_def Let_def c inPlace_file[OF fp f])
qed

text \<open>
  Claim C9: with file persistence on, every call that writes a collection returns with
  the file of the collection holding the whole updated record sequence: after a
  replacement the records that were given, after a clear no record, after an accepted
  insert the records that the insert read, merged with the entry and cut to the persisted
  amount (for an insert that does not merge and has no amount: the records that were read
  and the new record after them); the cache holds the same sequence. A read returns the
  records of the file, whatever the cache holds, and leaves the store as it is. So a read
  from a new instance over the same directory returns the records that the insert wrote,
  and this is what the read before the restart returned.
\<close>

theorem durable_write_then_read:
  assumes durable: "filePersistance this"
  shows "files (writeArrayEntries this name entries) name = Some entries
       \<and> files (removeArrayEntries this name) name = Some []
       \<and> (canAdd e = Inr True \<longrightarrow>
            (\<exists>this'. addArrayEntry srt this name e k inc now = Inr this'
               \<and> files this' name
                   = Some (reduced srt by_time k (merged (content_of this name) e inc now))
               \<and> localPersistance this' name = files this' name
               \<and> fst (getArrayEntries srt (restart this') name False False)
                   = Records (reduced srt by_time k (merged (content_of this name) e inc now))
               \<and> fst (getArrayEntries srt this' name False False)
                   = fst (getArrayEntries srt (restart this') name False False)))
       \<and> (canAdd e = Inr True \<longrightarrow>
            (\<exists>this'. addArrayCountEntry srt this name e k inc now = Inr this'
               \<and> files this' name
                   = Some (reduced srt by_count k (merged (content_of this name) e inc now))
               \<and> localPersistance this' name = files this' name
               \<and> fst (getArrayEntries srt (restart this') name False False)
                   = Records (reduced srt by_count k (merged (content_of this name) e inc now))
               \<and> fst (getArrayEntries srt this' name False False)
                   = fst (getArrayEntries srt (restart this') name False False)))
       \<and> (canAdd e = Inr True \<longrightarrow>
            (\<exists>this'. addArrayEntry srt this name e None False now = Inr this'
               \<and> files this' name = Some (content_of this name @ [newRecord e now])))
       \<and> (files this name = Some stored \<longrightarrow>
            getArrayEntries srt (this\<lparr>localPersistance := cache\<rparr>) name mp order
              = (if mp then Entries (map entry (if order then srt time_less stored else stored))
                 else Records (if order then srt time_less stored else stored),
                 this\<lparr>localPersistance := cache\<rparr>)
          \<and> fst (getArrayEntries srt (restart this) name mp order)
              = fst (getArrayEntries srt this name mp order))"
proof -
  have written: "files (writeArrayEntries this name xs) name = Some xs" for xs
    using durable by (rule files_write)
  have cached: "localPersistance (writeArrayEntries this name xs) name = Some xs" for xs
    by (rule localPersistance_write)
  have read: "getArrayEntries srt (t\<lparr>localPersistance := cache\<rparr>) name mp order
              = (if mp then Entries (map entry (if order then srt time_less xs else xs))
                 else Records (if order then srt time_less xs else xs),
                 t\<lparr>localPersistance := cache\<rparr>)"
    if "filePersistance t" "files t name = Some xs" for t xs cache mp order
    using getArrayEntries_file[OF that] .
  have again: "fst (getArrayEntries srt (restart t) name mp order)
                 = fst (getArrayEntries srt t name mp order)
             \<and> fst (getArrayEntries srt (restart t) name False False) = Records xs"
    if t: "filePersistance t" "files t name = Some xs" for t xs mp order
  proof -
    have "getArrayEntries srt (t\<lparr>localPersistance := localPersistance t\<rparr>) name mp order
            = (if mp then Entries (map entry (if order then srt time_less xs else xs))
               else Records (if order then srt time_less xs else xs),
               t\<lparr>localPersistance := localPersistance t\<rparr>)" for mp order
      using read[OF t] .
    then have here: "fst (getArrayEntries srt t name mp order)
            = (if mp then Entries (map entry (if order then srt time_less xs else xs))
               else Records (if order then srt time_less xs else xs))" for mp order
      by simp
    have there: "fst (getArrayEntries srt (restart t) name mp order)
            = (if mp then Entries (map entry (if order then srt time_less xs else xs))
               else Records (if order then srt time_less xs else xs))" for mp order
      unfolding restart_eq using read[OF t, of Map.empty mp order] by simp
    show ?thesis using here[of mp order] there[of mp order] there[of False False] by simp
  qed
  have insert: "\<exists>this'. call = Inr this'
               \<and> files this' name = Some xs
               \<and> localPersistance this' name = files this' name
               \<and> fst (getArrayEntries srt (restart this') name False False) = Records xs
               \<and> fst (getArrayEntries srt this' name False False)
                   = fst (getArrayEntries srt (restart this') name False False)"
    if "call = Inr (writeArrayEntries this name xs)" for call xs
  proof -
    let ?w = "writeArrayEntries this name xs"
    have fp: "filePersistance ?w" using durable by simp
    note ab = again[OF fp written[of xs], of False False]
    have a: "fst (getArrayEntries srt (restart ?w) name False False) = Records xs"
      using ab by (rule conjunct2)
    have b: "fst (getArrayEntries srt (restart ?w) name False False)
                = fst (getArrayEntries srt ?w name False False)"
      using ab by (rule conjunct1)
    show ?thesis
    proof (intro exI conjI)
      show "call = Inr ?w" by fact
      show "files ?w name = Some xs" by (rule written)
      show "localPersistance ?w name = files ?w name" by (simp add: written cached)
      show "fst (getArrayEntries srt (restart ?w) name False False) = Records xs" by (rule a)
      show "fst (getArrayEntries srt ?w name False False)
              = fst (getArrayEntries srt (restart ?w) name False False)" by (rule b[symmetric])
    qed
  qed
  have 1: "files (writeArrayEntries this name entries) name = Some entries" using written .
  have 2: "files (removeArrayEntries this name) name = Some []"
    using written by (simp add: removeArrayEntries_def)
  have 3: "canAdd e = Inr True \<longrightarrow>
            (\<exists>this'. addArrayEntry srt this name e k inc now = Inr this'
               \<and> files this' name
                   = Some (reduced srt by_time k (merged (content_of this name) e inc now))
               \<and> localPersistance this' name = files this' name
               \<and> fst (getArrayEntries srt (restart this') name False False)
                   = Records (reduced srt by_time k (merged (content_of this name) e inc now))
               \<and> fst (getArrayEntries srt this' name False False)
                   = fst (getArrayEntries srt (restart this') name False False))"
    using insert[OF addArrayEntry_accepted] by blast
  have 4: "canAdd e = Inr True \<longrightarrow>
            (\<exists>this'. addArrayCountEntry srt this name e k inc now = Inr this'
               \<and> files this' name
                   = Some (reduced srt by_count k (merged (content_of this name) e inc now))
               \<and> localPersistance this' name = files this' name
               \<and> fst (getArrayEntries srt (restart this') name False False)
                   = Records (reduced srt by_count k (merged (content_of this name) e inc now))
               \<and> fst (getArrayEntries srt this' name False False)
                   = fst (getArrayEntries srt (restart this') name False False))"
    using insert[OF addArrayCountEntry_accepted] by blast
  have 5: "canAdd e = Inr True \<longrightarrow>
            (\<exists>this'. addArrayEntry srt this name e None False now = Inr this'
               \<and> files this' name = Some (content_of this name @ [newRecord e now]))"
    using written
    by (simp add: addArrayEntry_accepted reduced_def merged_def)
  have 6: "files this name = Some stored \<longrightarrow>
            getArrayEntries srt (this\<lparr>localPersistance := cache\<rparr>) name mp order
              = (if mp then Entries (map entry (if order then srt time_less stored else stored))
                 else Records (if order then srt time_less stored else stored),
                 this\<lparr>localPersistance := cache\<rparr>)
          \<and> fst (getArrayEntries srt (restart this) name mp order)
              = fst (getArrayEntries srt this name mp order)"
    using read[OF durable] again[OF durable] by blast
  from 1 2 3 4 5 6 show ?thesis by (intro conjI)
qed

theorem durable_write_then_read_witness:
  "filePersistance (new_StateManagement Map.empty True)
   \<and> canAdd (Str ''/img/100/100'') = Inr True
   \<and> (\<exists>this'. addArrayEntry insertion_sort (new_StateManagement Map.empty True) ''paths''
                 (Str ''/img/100/100'') (Some 10) True 5 = Inr this'
         \<and> files this' ''paths''
             = Some (reduced insertion_sort by_time (Some 10)
                       (merged (content_of (new_StateManagement Map.empty True) ''paths'')
                          (Str ''/img/100/100'') True 5))
         \<and> fst (getArrayEntries insertion_sort (restart this') ''paths'' False False)
             = Records (reduced insertion_sort by_time (Some 10)
                       (merged (content_of (new_StateManagement Map.empty True) ''paths'')
                          (Str ''/img/100/100'') True 5)))
   \<and> reduced insertion_sort by_time (Some 10)
        (merged (content_of (new_StateManagement Map.empty True) ''paths'')
           (Str ''/img/100/100'') True 5)
       = [\<lparr>entry = Str ''/img/100/100'', time = 5, count_r = 1\<rparr>]
   \<and> filePersistance path_on_disk
   \<and> files path_on_disk ''paths''
       = Some [\<lparr>entry = Str ''/img/100/100'', time = 5, count_r = 1\<rparr>]
   \<and> getArrayEntries insertion_sort (path_on_disk\<lparr>localPersistance := [''paths'' \<mapsto> []]\<rparr>)
         ''paths'' True False
       = (Entries [Str ''/img/100/100''], path_on_disk\<lparr>localPersistance := [''paths'' \<mapsto> []]\<rparr>)
   \<and> fst (getArrayEntries insertion_sort (restart path_on_disk) ''paths'' True False)
       = Entries [Str ''/img/100/100'']"
proof -
  let ?new = "new_StateManagement Map.empty True"
  have h1: "filePersistance ?new" by code_simp
  have h2: "canAdd (Str ''/img/100/100'') = Inr True" by code_simp
  have v: "reduced insertion_sort by_time (Some 10)
             (merged (content_of ?new ''paths'') (Str ''/img/100/100'') True 5)
           = [\<lparr>entry = Str ''/img/100/100'', time = 5, count_r = 1\<rparr>]"
    by code_simp
  note inst = durable_write_then_read[OF h1, where srt = insertion_sort and name = "''paths''"
      and e = "Str ''/img/100/100''" and k = "Some 10" and inc = True and now = 5,
      THEN conjunct2, THEN conjunct2, THEN conjunct1, rule_format, OF h2]
  have "\<exists>this'. addArrayEntry insertion_sort ?new ''paths''
                 (Str ''/img/100/100'') (Some 10) True 5 = Inr this'
         \<and> files this' ''paths''
             = Some (reduced insertion_sort by_time (Some 10)
                       (merged (content_of ?new ''paths'') (Str ''/img/100/100'') True 5))
         \<and> fst (getArrayEntries insertion_sort (restart this') ''paths'' False False)
             = Records (reduced insertion_sort by_time (Some 10)
                       (merged (content_of ?new ''paths'') (Str ''/img/100/100'') True 5))"
    using inst by blast
  moreover have h3: "filePersistance path_on_disk" by code_simp
  moreover have h4: "files path_on_disk ''paths''
                       = Some [\<lparr>entry = Str ''/img/100/100'', time = 5, count_r = 1\<rparr>]"
    by code_simp
  note read = durable_write_then_read[OF h3, where srt = insertion_sort and name = "''paths''"
      and cache = "[''paths'' \<mapsto> []]" and mp = True and order = False,
      THEN conjunct2, THEN conjunct2, THEN conjunct2, THEN conjunct2, THEN conjunct2,
      rule_format, OF h4]
  have r1: "getArrayEntries insertion_sort (path_on_disk\<lparr>localPersistance := [''paths'' \<mapsto> []]\<rparr>)
              ''paths'' True False
            = (Entries [Str ''/img/100/100''],
               path_on_disk\<lparr>localPersistance := [''paths'' \<mapsto> []]\<rparr>)"
    using read[THEN conjunct1] by simp
  have r2: "fst (getArrayEntries insertion_sort (restart path_on_disk) ''paths'' True False)
              = Entries [Str ''/img/100/100'']"
    using read[THEN conjunct2] by code_simp
  ultimately show ?thesis using h1 h2 v h3 h4 r1 r2 by (intro conjI)
qed

section \<open>Windowed hits\<close>






section \<open>The capacity of a collection\<close>

lemma length_incrementFirst [simp]: "length (incrementFirst e now xs) = length xs"
  by (induction xs) simp_all

lemma length_merged: "length (merged content e inc now) \<le> Suc (length content)"
  by (simp add: merged_def incrementIfExists_def split: list.splits)

lemma length_reduced:
  assumes "conforming_sort srt" "length content \<le> Suc k"
  shows "length (reduced srt cmp (Some k) content) \<le> k"
proof -
  have "length (srt cmp content) = length content"
    using assms(1) by (rule conforming_length)
  with assms(2) show ?thesis by (auto simp: reduced_def)
qed

lemma insert1_bound:
  assumes srt: "conforming_sort srt" and le: "length (content_of this name) \<le> k"
  shows "length (content_of (insert1 srt name (Some k) this i) name) \<le> k"
proof -
  have m: "length (merged (content_of this name) e inc now) \<le> Suc k" for e inc now
    using length_merged[of "content_of this name" e inc now] le by simp
  show ?thesis
  proof (cases i)
    case (ArrayEntry e inc now)
    from canAdd_cases[of e] show ?thesis
    proof (elim disjE)
      assume "canAdd e = Inr True"
      then show ?thesis using ArrayEntry length_reduced[OF srt m]
        by (simp add: insert1_def addArrayEntry_accepted)
    next
      assume "canAdd e = Inr False"
      then show ?thesis using ArrayEntry le by (simp add: insert1_def addArrayEntry_def)
    next
      assume "canAdd e = Inl ReferenceError"
      then show ?thesis using ArrayEntry le by (simp add: insert1_def addArrayEntry_def)
    qed
  next
    case (ArrayCountEntry e inc now)
    from canAdd_cases[of e] show ?thesis
    proof (elim disjE)
      assume "canAdd e = Inr True"
      then show ?thesis using ArrayCountEntry length_reduced[OF srt m]
        by (simp add: insert1_def addArrayCountEntry_accepted)
    next
      assume "canAdd e = Inr False"
      then show ?thesis using ArrayCountEntry le by (simp add: insert1_def addArrayCountEntry_def)
    next
      assume "canAdd e = Inl ReferenceError"
      then show ?thesis using ArrayCountEntry le by (simp add: insert1_def addArrayCountEntry_def)
    qed
  qed
qed

lemma inserts_bound:
  assumes srt: "conforming_sort srt"
  shows "length (content_of this name) \<le> k
    \<Longrightarrow> length (content_of (inserts srt name (Some k) this is) name) \<le> k"
proof (induction "is" arbitrary: this)
  case Nil
  then show ?case by (simp add: inserts_def)
next
  case (Cons i "is")
  have "length (content_of (insert1 srt name (Some k) this i) name) \<le> k"
    using insert1_bound[OF srt Cons.prems] .
  from Cons.IH[OF this] show ?case by (simp add: inserts_def)
qed

text \<open>
  Claim C3: a collection that is written with the persisted amount \<open>k\<close> never holds
  more than \<open>k\<close> records once a write has completed. The collection starts with at most
  \<open>k\<close> records (a new one is empty); the inserts are calls of \<open>addArrayEntry\<close> and
  \<open>addArrayCountEntry\<close> in any order, with any entry, flag and clock reading, and the
  bound holds after every one of them (after the first \<open>n\<close> calls, for every \<open>n\<close>).
\<close>

theorem stored_records_within_capacity:
  assumes "conforming_sort srt" and "length (content_of this name) \<le> k"
  shows "length (content_of (inserts srt name (Some k) this (take n is)) name) \<le> k"
  using inserts_bound[OF assms] .

theorem stored_records_within_capacity_witness:
  "conforming_sort insertion_sort
   \<and> length (content_of (new_StateManagement Map.empty False) ''paths'') \<le> 2
   \<and> length (content_of
        (inserts insertion_sort ''paths'' (Some 2) (new_StateManagement Map.empty False)
           (take 3 [ArrayEntry (Str ''a'') True 1, ArrayCountEntry (Str ''b'') True 2,
                    ArrayEntry (Str ''c'') True 3])) ''paths'') \<le> 2"
proof -
  have h: "length (content_of (new_StateManagement Map.empty False) ''paths'') \<le> 2"
    by code_simp
  show ?thesis
    using conforming_insertion_sort h
      stored_records_within_capacity[OF conforming_insertion_sort h]
    by blast
qed

section \<open>Eviction\<close>

lemma reduced_within: "length content \<le> k \<Longrightarrow> reduced srt cmp (Some k) content = content"
  by (simp add: reduced_def)

lemma reduced_evicts:
  assumes srt: "conforming_sort srt" and con: "consistent cmp (set content)"
    and over: "k < length content"
  shows "\<exists>removed. removed \<in> set content
           \<and> mset (reduced srt cmp (Some k) content) + {#removed#} = mset content
           \<and> (\<forall>x\<in>set content. cmp x removed \<le> 0)"
proof -
  let ?ys = "srt cmp content"
  have len: "length ?ys = length content" using srt by (rule conforming_length)
  with over have ne: "?ys \<noteq> []" by auto
  have set_eq: "set ?ys = set content" using srt by (rule conforming_set)
  have last_in: "last ?ys \<in> set content" using ne set_eq last_in_set by blast
  have refl: "cmp (last ?ys) (last ?ys) \<le> 0"
    using consistent_refl[OF con last_in] by simp
  have sorted: "sorted_wrt (\<lambda>a b. cmp a b \<le> 0) ?ys"
    using conforming_sorted[OF srt con] .
  have least: "cmp x (last ?ys) \<le> 0" if "x \<in> set content" for x
    using sorted_wrt_last[OF sorted _ refl, of x] that set_eq by simp
  have "mset (butlast ?ys) + {#last ?ys#} = mset ?ys"
    using ne by (metis append_butlast_last_id mset.simps(1) mset.simps(2) mset_append)
  then have "mset (reduced srt cmp (Some k) content) + {#last ?ys#} = mset content"
    using over conforming_mset[OF srt, of cmp content] by (simp add: reduced_def)
  with last_in least show ?thesis by blast
qed

lemma merged_new:
  assumes "\<forall>x\<in>set content. entry x \<noteq> e"
  shows "merged content e inc now = content @ [newRecord e now]"
proof -
  have "filter (\<lambda>x. entry x = e) content = []" using assms by (simp add: filter_empty_conv)
  then show ?thesis by (simp add: merged_def incrementIfExists_def)
qed

lemma content_of_insert1_ArrayEntry:
  assumes "canAdd e = Inr True"
  shows "content_of (insert1 srt name k this (ArrayEntry e inc now)) name
           = reduced srt by_time k (merged (content_of this name) e inc now)"
  using assms by (simp add: insert1_def addArrayEntry_accepted)

lemma content_of_insert1_ArrayCountEntry:
  assumes "canAdd e = Inr True"
  shows "content_of (insert1 srt name k this (ArrayCountEntry e inc now)) name
           = reduced srt by_count k (merged (content_of this name) e inc now)"
  using assms by (simp add: insert1_def addArrayCountEntry_accepted)

lemma inserts_Cons: "inserts srt name k this (i # is) = inserts srt name k (insert1 srt name k this i) is"
  by (simp add: inserts_def)

lemma inserts_snoc: "inserts srt name k this (is @ [i]) = insert1 srt name k (inserts srt name k this is) i"
  by (simp add: inserts_def)

lemma inserts_below_capacity:
  assumes "\<forall>p\<in>set es. canAdd (fst p) = Inr True"
    and "distinct (map fst es)"
    and "\<forall>x\<in>set (content_of this name). entry x \<notin> fst ` set es"
    and "length (content_of this name) + length es \<le> k"
  shows "content_of (inserts srt name (Some k) this (map (\<lambda>p. ArrayEntry (fst p) inc (snd p)) es)) name
           = content_of this name @ map (\<lambda>p. newRecord (fst p) (snd p)) es"
  using assms
proof (induction es arbitrary: this)
  case Nil
  then show ?case by (simp add: inserts_def)
next
  case (Cons p es)
  let ?this' = "insert1 srt name (Some k) this (ArrayEntry (fst p) inc (snd p))"
  have acc: "canAdd (fst p) = Inr True" using Cons.prems(1) by simp
  have fresh: "\<forall>x\<in>set (content_of this name). entry x \<noteq> fst p" using Cons.prems(3) by auto
  have c': "content_of ?this' name = content_of this name @ [newRecord (fst p) (snd p)]"
    using Cons.prems(4)
    by (simp add: content_of_insert1_ArrayEntry[OF acc] merged_new[OF fresh] reduced_within)
  have 1: "\<forall>q\<in>set es. canAdd (fst q) = Inr True" using Cons.prems(1) by simp
  have 2: "distinct (map fst es)" using Cons.prems(2) by simp
  have 3: "\<forall>x\<in>set (content_of ?this' name). entry x \<notin> fst ` set es"
    using Cons.prems(2,3) by (auto simp: c' newRecord_def)
  have 4: "length (content_of ?this' name) + length es \<le> k"
    using Cons.prems(4) by (simp add: c')
  show ?case using Cons.IH[OF 1 2 3 4] by (simp add: inserts_Cons c')
qed

lemma least_is_first:
  assumes inc: "sorted_wrt (<) (map time (x # xs))"
    and r: "r \<in> set (x # xs)" and least: "\<forall>y\<in>set (x # xs). time r \<le> time y"
  shows "r = x"
proof (rule ccontr)
  assume "r \<noteq> x"
  with r have "r \<in> set xs" by simp
  then have "time x < time r" using inc by auto
  moreover have "time r \<le> time x" using least by simp
  ultimately show False by simp
qed

text \<open>
  Claim C5: when \<open>addArrayEntry\<close> leaves more records than the persisted amount \<open>k\<close>,
  it removes one record, and no record of the collection has a smaller timestamp than
  the removed one. In particular, \<open>k + 1\<close> accepted, pairwise distinct entries inserted
  into an empty collection at strictly increasing clock readings leave the \<open>k\<close> entries
  inserted last, each counted once: the entry inserted first is the one evicted.
\<close>

theorem recency_eviction:
  assumes srt: "conforming_sort srt"
  shows "(canAdd e = Inr True \<and> k < length (merged (content_of this name) e inc now) \<longrightarrow>
            (\<exists>this' removed.
                addArrayEntry srt this name e (Some k) inc now = Inr this'
              \<and> removed \<in> set (merged (content_of this name) e inc now)
              \<and> mset (content_of this' name) + {#removed#}
                  = mset (merged (content_of this name) e inc now)
              \<and> (\<forall>x\<in>set (merged (content_of this name) e inc now). time removed \<le> time x)))
       \<and> (content_of this name = [] \<and> length es = Suc k \<and> distinct (map fst es)
            \<and> (\<forall>p\<in>set es. canAdd (fst p) = Inr True) \<and> sorted_wrt (<) (map snd es) \<longrightarrow>
            mset (content_of
                    (inserts srt name (Some k) this (map (\<lambda>p. ArrayEntry (fst p) inc (snd p)) es))
                    name)
              = mset (map (\<lambda>p. newRecord (fst p) (snd p)) (tl es)))"
proof (intro conjI impI)
  let ?m = "merged (content_of this name) e inc now"
  assume a: "canAdd e = Inr True \<and> k < length ?m"
  then have acc: "canAdd e = Inr True" and over: "k < length ?m" by simp_all
  from reduced_evicts[OF srt consistent_by_time over] obtain removed
    where r: "removed \<in> set ?m" "mset (reduced srt by_time (Some k) ?m) + {#removed#} = mset ?m"
      "\<forall>x\<in>set ?m. by_time x removed \<le> 0" by blast
  from r(3) have "\<forall>x\<in>set ?m. time removed \<le> time x" by (simp add: by_time_def)
  with r(1,2) show "\<exists>this' removed.
                addArrayEntry srt this name e (Some k) inc now = Inr this'
              \<and> removed \<in> set ?m
              \<and> mset (content_of this' name) + {#removed#} = mset ?m
              \<and> (\<forall>x\<in>set ?m. time removed \<le> time x)"
    by (simp add: addArrayEntry_accepted[OF acc]) blast
next
  let ?mk = "\<lambda>p. newRecord (fst p) (snd p)"
  let ?ins = "\<lambda>p. ArrayEntry (fst p) inc (snd p)"
  assume a: "content_of this name = [] \<and> length es = Suc k \<and> distinct (map fst es)
            \<and> (\<forall>p\<in>set es. canAdd (fst p) = Inr True) \<and> sorted_wrt (<) (map snd es)"
  then have empty: "content_of this name = []" and len: "length es = Suc k"
    and dist: "distinct (map fst es)" and acc: "\<forall>p\<in>set es. canAdd (fst p) = Inr True"
    and inc: "sorted_wrt (<) (map snd es)" by simp_all
  from len have ne: "es \<noteq> []" by auto
  define front where "front = butlast es"
  define p where "p = last es"
  have es: "es = front @ [p]" using ne by (simp add: front_def p_def)
  let ?before = "inserts srt name (Some k) this (map ?ins front)"
  have before: "content_of ?before name = map ?mk front"
    using inserts_below_capacity[where es = front and this = this and name = name and k = k
        and srt = srt and inc = inc] acc dist len empty
    by (simp add: es)
  have accp: "canAdd (fst p) = Inr True" using acc es by simp
  have notin: "fst p \<notin> fst ` set front" using dist by (simp add: es)
  have fresh: "\<forall>x\<in>set (content_of ?before name). entry x \<noteq> fst p"
  proof
    fix x assume "x \<in> set (content_of ?before name)"
    then obtain q where q: "q \<in> set front" "x = ?mk q" by (auto simp: before)
    then have "entry x = fst q" by (simp add: newRecord_def)
    with q(1) notin show "entry x \<noteq> fst p" by force
  qed
  have m: "merged (content_of ?before name) (fst p) inc (snd p) = map ?mk es"
    using merged_new[OF fresh, of inc "snd p"] by (simp add: before es)
  have over: "k < length (map ?mk es)" using len by simp
  from reduced_evicts[OF srt consistent_by_time over] obtain removed
    where r: "removed \<in> set (map ?mk es)"
      "mset (reduced srt by_time (Some k) (map ?mk es)) + {#removed#} = mset (map ?mk es)"
      "\<forall>x\<in>set (map ?mk es). by_time x removed \<le> 0" by blast
  have split: "map ?mk es = ?mk (hd es) # map ?mk (tl es)" using ne by (cases es) simp_all
  have times: "map time (map ?mk es) = map snd es" by (simp add: newRecord_def comp_def)
  have "removed = ?mk (hd es)"
  proof (rule least_is_first)
    show "sorted_wrt (<) (map time (?mk (hd es) # map ?mk (tl es)))"
      using inc times split by metis
    show "removed \<in> set (?mk (hd es) # map ?mk (tl es))" using r(1) split by metis
    show "\<forall>y\<in>set (?mk (hd es) # map ?mk (tl es)). time removed \<le> time y"
      using r(3) split by (simp add: by_time_def)
  qed
  with r(2) have "mset (reduced srt by_time (Some k) (map ?mk es)) = mset (map ?mk (tl es))"
    unfolding split by simp
  then show "mset (content_of (inserts srt name (Some k) this (map ?ins es)) name)
              = mset (map ?mk (tl es))"
    by (simp add: es inserts_snoc content_of_insert1_ArrayEntry[OF accp] m[unfolded es])
qed

theorem recency_eviction_witness:
  "conforming_sort insertion_sort
   \<and> canAdd (Str ''/img/3/3'') = Inr True
   \<and> 2 < length (merged (content_of two_paths ''paths'') (Str ''/img/3/3'') True 3)
   \<and> (\<exists>this' removed.
          addArrayEntry insertion_sort two_paths ''paths'' (Str ''/img/3/3'') (Some 2) True 3
            = Inr this'
        \<and> removed \<in> set (merged (content_of two_paths ''paths'') (Str ''/img/3/3'') True 3)
        \<and> mset (content_of this' ''paths'') + {#removed#}
            = mset (merged (content_of two_paths ''paths'') (Str ''/img/3/3'') True 3)
        \<and> (\<forall>x\<in>set (merged (content_of two_paths ''paths'') (Str ''/img/3/3'') True 3).
              time removed \<le> time x))
   \<and> content_of (new_StateManagement Map.empty False) ''paths'' = []
   \<and> mset (content_of
        (inserts insertion_sort ''paths'' (Some 2) (new_StateManagement Map.empty False)
           (map (\<lambda>p. ArrayEntry (fst p) True (snd p))
              [(Str ''/img/1/1'', 1), (Str ''/img/2/2'', 2), (Str ''/img/3/3'', 3)])) ''paths'')
       = mset (map (\<lambda>p. newRecord (fst p) (snd p))
                 (tl [(Str ''/img/1/1'', 1), (Str ''/img/2/2'', 2), (Str ''/img/3/3'', 3)]))"
proof -
  let ?es = "[(Str ''/img/1/1'', 1 :: int), (Str ''/img/2/2'', 2), (Str ''/img/3/3'', 3)]"
  have h1: "canAdd (Str ''/img/3/3'') = Inr True
            \<and> 2 < length (merged (content_of two_paths ''paths'') (Str ''/img/3/3'') True 3)"
    by code_simp
  have h2: "content_of (new_StateManagement Map.empty False) ''paths'' = []
            \<and> length ?es = Suc 2 \<and> distinct (map fst ?es)
            \<and> (\<forall>p\<in>set ?es. canAdd (fst p) = Inr True) \<and> sorted_wrt (<) (map snd ?es)"
    by (simp add: canAdd_def isNil_def isArray_def content_of_def new_StateManagement_def)
  note first = recency_eviction[OF conforming_insertion_sort,
      where e = "Str ''/img/3/3''" and k = 2 and this = two_paths and name = "''paths''"
        and inc = True and now = 3, THEN conjunct1, rule_format, OF h1]
  note second = recency_eviction[OF conforming_insertion_sort,
      where k = 2 and this = "new_StateManagement Map.empty False" and name = "''paths''"
        and inc = True and es = ?es, THEN conjunct2, rule_format, OF h2]
  from h2 have h3: "content_of (new_StateManagement Map.empty False) ''paths'' = []" by simp
  show ?thesis
    using conforming_insertion_sort h1 first h3 second by (intro conjI) simp_all
qed

text \<open>
  Claim C4: when \<open>addArrayCountEntry\<close> leaves more records than the persisted amount
  \<open>k\<close>, it removes one record; no record has a smaller count than the removed one, and
  no record with the same count has a smaller timestamp. In particular, when a collection
  kept at two records holds a record counted five times and a record counted once, and a
  new entry is inserted later than the second one was touched, the counts are 5, 1, 1
  and the record removed is the older of the two counted once: the record counted five
  times and the new record stay.
\<close>

theorem frequency_eviction:
  assumes srt: "conforming_sort srt"
  shows "(canAdd e = Inr True \<and> k < length (merged (content_of this name) e inc now) \<longrightarrow>
            (\<exists>this' removed.
                addArrayCountEntry srt this name e (Some k) inc now = Inr this'
              \<and> removed \<in> set (merged (content_of this name) e inc now)
              \<and> mset (content_of this' name) + {#removed#}
                  = mset (merged (content_of this name) e inc now)
              \<and> (\<forall>x\<in>set (merged (content_of this name) e inc now).
                    count_r removed \<le> count_r x
                  \<and> (count_r x = count_r removed \<longrightarrow> time removed \<le> time x))))
       \<and> (mset (content_of this name) = {#a, b#} \<and> count_r a = 5 \<and> count_r b = 1
            \<and> entry a \<noteq> e \<and> entry b \<noteq> e \<and> canAdd e = Inr True \<and> time b < now \<longrightarrow>
            (\<exists>this'. addArrayCountEntry srt this name e (Some 2) inc now = Inr this'
                   \<and> mset (content_of this' name) = {#a, newRecord e now#}))"
proof (intro conjI impI)
  let ?m = "merged (content_of this name) e inc now"
  assume a: "canAdd e = Inr True \<and> k < length ?m"
  then have acc: "canAdd e = Inr True" and over: "k < length ?m" by simp_all
  from reduced_evicts[OF srt consistent_by_count over] obtain removed
    where r: "removed \<in> set ?m" "mset (reduced srt by_count (Some k) ?m) + {#removed#} = mset ?m"
      "\<forall>x\<in>set ?m. by_count x removed \<le> 0" by blast
  have "count_r removed \<le> count_r x \<and> (count_r x = count_r removed \<longrightarrow> time removed \<le> time x)"
    if "x \<in> set ?m" for x
  proof -
    from r(3) that have "by_count x removed \<le> 0" by blast
    then show ?thesis by (simp add: by_count_def split: if_splits)
  qed
  then have least: "\<forall>x\<in>set ?m. count_r removed \<le> count_r x
                  \<and> (count_r x = count_r removed \<longrightarrow> time removed \<le> time x)" by blast
  have "addArrayCountEntry srt this name e (Some k) inc now
          = Inr (writeArrayEntries this name (reduced srt by_count (Some k) ?m))"
    using addArrayCountEntry_accepted[OF acc] .
  moreover have "mset (content_of (writeArrayEntries this name (reduced srt by_count (Some k) ?m)) name)
                   + {#removed#} = mset ?m" using r(2) by simp
  ultimately show "\<exists>this' removed.
                addArrayCountEntry srt this name e (Some k) inc now = Inr this'
              \<and> removed \<in> set ?m
              \<and> mset (content_of this' name) + {#removed#} = mset ?m
              \<and> (\<forall>x\<in>set ?m. count_r removed \<le> count_r x
                  \<and> (count_r x = count_r removed \<longrightarrow> time removed \<le> time x))"
    using r(1) least by blast
next
  let ?c = "newRecord e now"
  assume a: "mset (content_of this name) = {#a, b#} \<and> count_r a = 5 \<and> count_r b = 1
            \<and> entry a \<noteq> e \<and> entry b \<noteq> e \<and> canAdd e = Inr True \<and> time b < now"
  then have content: "mset (content_of this name) = {#a, b#}"
    and counts: "count_r a = 5" "count_r b = 1" and fresh_ab: "entry a \<noteq> e" "entry b \<noteq> e"
    and acc: "canAdd e = Inr True" and older: "time b < now" by simp_all
  have set_content: "set (content_of this name) = {a, b}"
    using arg_cong[OF content, of set_mset] by simp
  have fresh: "\<forall>x\<in>set (content_of this name). entry x \<noteq> e"
    using set_content fresh_ab by auto
  let ?m = "merged (content_of this name) e inc now"
  have m: "?m = content_of this name @ [?c]" using merged_new[OF fresh] .
  have mset_m: "mset ?m = {#a, b, ?c#}" using content by (simp add: m)
  have set_m: "set ?m = {a, b, ?c}" using set_content by (auto simp: m)
  have "size (mset ?m) = 3" unfolding mset_m by simp
  then have over: "2 < length ?m" by simp
  from reduced_evicts[OF srt consistent_by_count over] obtain removed
    where r: "removed \<in> set ?m" "mset (reduced srt by_count (Some 2) ?m) + {#removed#} = mset ?m"
      "\<forall>x\<in>set ?m. by_count x removed \<le> 0" by blast
  have least: "by_count b removed \<le> 0" using r(3) set_m by simp
  have not_a: "removed \<noteq> a"
  proof
    assume "removed = a"
    with least counts show False by (simp add: by_count_def)
  qed
  have not_c: "removed \<noteq> ?c"
  proof
    assume "removed = ?c"
    with least counts older show False by (simp add: by_count_def newRecord_def)
  qed
  from r(1) set_m not_a not_c have "removed = b" by simp
  with r(2) have "mset (reduced srt by_count (Some 2) ?m) = {#a, ?c#}"
    unfolding mset_m by simp
  then show "\<exists>this'. addArrayCountEntry srt this name e (Some 2) inc now = Inr this'
                   \<and> mset (content_of this' name) = {#a, newRecord e now#}"
    by (simp add: addArrayCountEntry_accepted[OF acc])
qed

theorem frequency_eviction_witness:
  "conforming_sort insertion_sort
   \<and> mset (content_of counted_sizes ''sizes-all'')
       = {#\<lparr>entry = Size 100 100, time = 5, count_r = 5\<rparr>,
           \<lparr>entry = Size 200 200, time = 6, count_r = 1\<rparr>#}
   \<and> canAdd (Size 300 300) = Inr True
   \<and> 2 < length (merged (content_of counted_sizes ''sizes-all'') (Size 300 300) True 7)
   \<and> (\<exists>this'. addArrayCountEntry insertion_sort counted_sizes ''sizes-all'' (Size 300 300)
                  (Some 2) True 7 = Inr this'
           \<and> mset (content_of this' ''sizes-all'')
               = {#\<lparr>entry = Size 100 100, time = 5, count_r = 5\<rparr>, newRecord (Size 300 300) 7#})"
proof -
  let ?a = "\<lparr>entry = Size 100 100, time = 5, count_r = 5\<rparr>"
  let ?b = "\<lparr>entry = Size 200 200, time = 6, count_r = 1\<rparr>"
  have c: "content_of counted_sizes ''sizes-all'' = [?a, ?b]" by code_simp
  have h0: "mset (content_of counted_sizes ''sizes-all'') = {#?a, ?b#}" by (simp add: c)
  have acc: "canAdd (Size 300 300) = Inr True" by code_simp
  have over: "2 < length (merged (content_of counted_sizes ''sizes-all'') (Size 300 300) True 7)"
    by code_simp
  have h: "mset (content_of counted_sizes ''sizes-all'') = {#?a, ?b#}
           \<and> count_r ?a = 5 \<and> count_r ?b = 1
           \<and> entry ?a \<noteq> Size 300 300 \<and> entry ?b \<noteq> Size 300 300
           \<and> canAdd (Size 300 300) = Inr True \<and> time ?b < 7"
    using h0 acc by simp
  note particular = frequency_eviction[OF conforming_insertion_sort,
      where e = "Size 300 300" and k = 2 and this = counted_sizes and name = "''sizes-all''"
        and inc = True and now = 7 and a = ?a and b = ?b, THEN conjunct2, rule_format, OF h]
  show ?thesis
    using conforming_insertion_sort h0 acc over particular by (intro conjI) simp_all
qed

section \<open>The order of the lists\<close>

text \<open>
  The comparators of \<open>getArrayEntries\<close>, \<open>sendTopSizes\<close> and \<open>sendTopReferences\<close>
  return a boolean, that is 1 or 0 and never a negative number. A sort that moves an
  element only before one it compares less than, as the insertion sort above and the sort
  of V8 do, leaves the array as it is.
\<close>

lemma insert_sorted_never_negative:
  assumes "\<And>a b. 0 \<le> cmp a b"
  shows "insert_sorted cmp x ys = ys @ [x]"
proof (induction ys)
  case Nil
  show ?case by simp
next
  case (Cons y ys)
  have "\<not> cmp x y < 0" using assms[of x y] by simp
  with Cons show ?case by simp
qed

lemma insertion_sort_never_negative:
  assumes "\<And>a b. 0 \<le> cmp a b"
  shows "insertion_sort cmp xs = xs"
proof -
  have "foldl (\<lambda>acc x. insert_sorted cmp x acc) acc xs = acc @ xs" for acc
    by (induction xs arbitrary: acc) (simp_all add: insert_sorted_never_negative[OF assms])
  then show ?thesis by (simp add: insertion_sort_def)
qed

lemma insertion_sort_time_less: "insertion_sort time_less xs = xs"
  by (rule insertion_sort_never_negative) (simp add: time_less_def)

lemma insertion_sort_count_less: "insertion_sort count_less xs = xs"
  by (rule insertion_sort_never_negative) (simp add: count_less_def)

text \<open>
  Claim C6: a read with \<open>order = true\<close> returns the records most recently touched
  first. The claim fails on the code with the sort above: after the text \<^verbatim>\<open>old\<close> and
  then the text \<^verbatim>\<open>new\<close> were recorded, \<open>sendRecentTexts\<close> returns \<^verbatim>\<open>old\<close> first;
  a read with \<open>order = true\<close> returns what a read with \<open>order = false\<close> returns. The
  comparator of line 386 is \<^verbatim>\<open>a.time < b.time\<close>, where line 334 sorts the same records
  with \<^verbatim>\<open>b.time - a.time\<close>.
\<close>

theorem recent_texts_oldest_first:
  "content_of two_texts ''texts''
     = [\<lparr>entry = Str ''old'', time = 1, count_r = 1\<rparr>,
        \<lparr>entry = Str ''new'', time = 2, count_r = 1\<rparr>]
   \<and> fst (sendRecentTexts insertion_sort two_texts) = Entries [Str ''old'', Str ''new'']
   \<and> fst (getArrayEntries insertion_sort this name mp True)
       = fst (getArrayEntries insertion_sort this name mp False)"
proof -
  have "content_of two_texts ''texts''
          = [\<lparr>entry = Str ''old'', time = 1, count_r = 1\<rparr>,
             \<lparr>entry = Str ''new'', time = 2, count_r = 1\<rparr>]
        \<and> fst (sendRecentTexts insertion_sort two_texts) = Entries [Str ''old'', Str ''new'']"
    by code_simp
  then show ?thesis by (simp add: fst_getArrayEntries insertion_sort_time_less)
qed

text \<open>
  Claim C7: the top sizes and the top referrers are returned most requested first, each
  record projected to its count and its entry. The projection is as claimed; the order is
  not, with the sort above: after the size 100 x 100 was served once and the size
  200 x 200 twice, \<open>sendTopSizes\<close> returns the size served once first, and so does
  \<open>sendTopReferences\<close> with the referrers. The comparator of lines 762 and 773 is
  \<^verbatim>\<open>a.count < b.count\<close>, where line 362 sorts by \<^verbatim>\<open>b.count - a.count\<close>.
\<close>

theorem top_lists_least_requested_first:
  "fst (sendTopSizes insertion_sort three_requests)
     = [TopSize 1 (Size 100 100), TopSize 2 (Size 200 200)]
   \<and> fst (sendTopReferences insertion_sort three_requests)
     = [TopReference (Str ''http://a.example/'') 1, TopReference (Str ''http://b.example/'') 2]"
  by code_simp

section \<open>Merging inserts\<close>

lemma map_entry_incrementFirst [simp]:
  "map entry (incrementFirst e now xs) = map entry xs"
  by (induction xs) (simp_all add: incrementEntry_def)

lemma incrementFirst_distinct:
  "distinct (map entry xs) \<Longrightarrow>
   incrementFirst e now xs = map (\<lambda>r. if entry r = e then incrementEntry r now else r) xs"
proof (induction xs)
  case Nil
  show ?case by simp
next
  case (Cons x xs)
  show ?case
  proof (cases "entry x = e")
    case True
    then have "e \<notin> entry ` set xs" using Cons.prems by simp
    then have "\<forall>r\<in>set xs. entry r \<noteq> e" by blast
    then have "map (\<lambda>r. if entry r = e then incrementEntry r now else r) xs = xs"
      by (simp add: map_idI)
    with True show ?thesis by simp
  next
    case False
    with Cons show ?thesis by simp
  qed
qed

lemma merged_found:
  assumes "e \<in> entry ` set content"
  shows "merged content e True now = incrementFirst e now content"
proof -
  from assms have "filter (\<lambda>x. entry x = e) content \<noteq> []"
    by (auto simp: filter_empty_conv)
  then show ?thesis
    by (cases "filter (\<lambda>x. entry x = e) content") (simp_all add: merged_def incrementIfExists_def)
qed

lemma merged_fresh:
  assumes "e \<notin> entry ` set content"
  shows "merged content e inc now = content @ [newRecord e now]"
  using assms by (intro merged_new) auto

lemma entries_merged:
  "entry ` set (merged content e True now) = insert e (entry ` set content)"
proof (cases "e \<in> entry ` set content")
  case True
  have "entry ` set (incrementFirst e now content) = set (map entry (incrementFirst e now content))"
    by (simp only: set_map)
  also have "\<dots> = set (map entry content)" by (simp only: map_entry_incrementFirst)
  also have "\<dots> = entry ` set content" by (simp only: set_map)
  finally show ?thesis using True by (auto simp: merged_found)
next
  case False
  then show ?thesis by (simp add: merged_fresh newRecord_def)
qed

lemma distinct_merged:
  assumes "distinct (map entry content)"
  shows "distinct (map entry (merged content e True now))"
proof (cases "e \<in> entry ` set content")
  case True
  then show ?thesis using assms by (simp add: merged_found)
next
  case False
  then show ?thesis using assms by (simp add: merged_fresh newRecord_def)
qed

lemma distinct_reduced:
  assumes srt: "conforming_sort srt" and d: "distinct (map entry content)"
  shows "distinct (map entry (reduced srt cmp k content))"
proof (cases k)
  case None
  then show ?thesis using d by (simp add: reduced_def)
next
  case (Some c)
  have "mset (map entry (srt cmp content)) = mset (map entry content)"
    using conforming_mset[OF srt, of cmp content] by simp
  then have "distinct (map entry (srt cmp content))"
    using d by (metis mset_eq_imp_distinct_iff)
  then have "distinct (map entry (butlast (srt cmp content)))"
    by (simp add: map_butlast distinct_butlast)
  then show ?thesis using Some d by (simp add: reduced_def)
qed

lemma insert1_rejected:
  assumes "canAdd (ins_entry i) \<noteq> Inr True"
  shows "insert1 srt name k this i = this"
proof -
  from canAdd_cases[of "ins_entry i"] assms
  have "canAdd (ins_entry i) = Inr False \<or> canAdd (ins_entry i) = Inl ReferenceError" by blast
  then show ?thesis
    by (cases i) (auto simp: insert1_def addArrayEntry_def addArrayCountEntry_def)
qed

lemma insert1_accepted:
  assumes "canAdd (ins_entry i) = Inr True"
  shows "\<exists>cmp. content_of (insert1 srt name k this i) name
           = reduced srt cmp k (merged (content_of this name) (ins_entry i) (ins_increment i) (ins_now i))"
  using assms
  by (cases i) (auto simp: content_of_insert1_ArrayEntry content_of_insert1_ArrayCountEntry)

lemma insert1_distinct:
  assumes srt: "conforming_sort srt" and inc: "ins_increment i"
    and d: "distinct (map entry (content_of this name))"
  shows "distinct (map entry (content_of (insert1 srt name k this i) name))"
proof (cases "canAdd (ins_entry i) = Inr True")
  case True
  from insert1_accepted[OF True] obtain cmp
    where "content_of (insert1 srt name k this i) name
             = reduced srt cmp k (merged (content_of this name) (ins_entry i) (ins_increment i) (ins_now i))"
    by blast
  then show ?thesis using distinct_reduced[OF srt distinct_merged[OF d]] inc by simp
next
  case False
  then show ?thesis using d by (simp add: insert1_rejected)
qed

lemma inserts_distinct:
  assumes srt: "conforming_sort srt"
  shows "\<forall>i\<in>set is. ins_increment i \<Longrightarrow> distinct (map entry (content_of this name))
    \<Longrightarrow> distinct (map entry (content_of (inserts srt name k this is) name))"
proof (induction "is" arbitrary: this)
  case Nil
  then show ?case by (simp add: inserts_def)
next
  case (Cons i "is")
  have "distinct (map entry (content_of (insert1 srt name k this i) name))"
    using insert1_distinct[OF srt _ Cons.prems(2)] Cons.prems(1) by simp
  then show ?case using Cons.IH Cons.prems(1) by (simp add: inserts_Cons)
qed

lemma finite_accepted: "finite (accepted is)"
  by (simp add: accepted_def)

lemma accepted_snoc:
  "accepted (is @ [i]) = (if canAdd (ins_entry i) = Inr True then insert (ins_entry i) (accepted is)
                          else accepted is)"
  by (auto simp: accepted_def)

lemma fits_snoc: "fits k (is @ [i]) \<Longrightarrow> fits k is"
proof (cases k)
  case None
  then show ?thesis by (simp add: fits_def)
next
  case (Some c)
  assume "fits k (is @ [i])"
  then have "card (accepted (is @ [i])) \<le> c" using Some by (simp add: fits_def)
  moreover have "card (accepted is) \<le> card (accepted (is @ [i]))"
    by (rule card_mono) (auto simp: finite_accepted accepted_snoc)
  ultimately show ?thesis using Some by (simp add: fits_def)
qed

lemma reduced_fits:
  assumes "fits k is" and "length content \<le> card (accepted is)"
  shows "reduced srt cmp k content = content"
  using assms by (cases k) (simp_all add: reduced_def fits_def)

lemma counted_step:
  assumes inv: "counted is content" and acc: "canAdd e = Inr True" and i: "ins_entry i = e"
  shows "counted (is @ [i]) (merged content e True now)"
proof -
  from inv have d: "distinct (map entry content)" and s: "entry ` set content = accepted is"
    and c: "\<forall>r\<in>set content. count_r r = int (count_list (map ins_entry is) (entry r))"
    by (simp_all add: counted_def)
  have d': "distinct (map entry (merged content e True now))" using d by (rule distinct_merged)
  have s': "entry ` set (merged content e True now) = accepted (is @ [i])"
    using s acc i by (simp add: entries_merged accepted_snoc)
  have c': "count_r r = int (count_list (map ins_entry (is @ [i])) (entry r))"
    if r: "r \<in> set (merged content e True now)" for r
  proof (cases "e \<in> entry ` set content")
    case True
    have m: "merged content e True now
               = map (\<lambda>r. if entry r = e then incrementEntry r now else r) content"
      using True d by (simp add: merged_found incrementFirst_distinct)
    from r obtain r0 where r0: "r0 \<in> set content"
      "r = (if entry r0 = e then incrementEntry r0 now else r0)" unfolding m by auto
    show ?thesis
    proof (cases "entry r0 = e")
      case True
      then show ?thesis using r0 c i by (simp add: incrementEntry_def)
    next
      case False
      then show ?thesis using r0 c i by simp
    qed
  next
    case False
    then have notin: "e \<notin> ins_entry ` set is" using s acc by (auto simp: accepted_def)
    have m: "merged content e True now = content @ [newRecord e now]"
      using False by (rule merged_fresh)
    from r have "r \<in> set content \<or> r = newRecord e now" unfolding m by auto
    then show ?thesis
    proof
      assume r0: "r \<in> set content"
      then have "entry r \<noteq> e" using False by auto
      then show ?thesis using r0 c i by simp
    next
      assume "r = newRecord e now"
      moreover have "count_list (map ins_entry is) e = 0"
        using notin by (simp add: count_list_0_iff)
      ultimately show ?thesis using i by (simp add: newRecord_def)
    qed
  qed
  show ?thesis using d' s' c' by (simp add: counted_def)
qed

lemma counted_skip:
  assumes inv: "counted is content" and rej: "canAdd (ins_entry i) \<noteq> Inr True"
  shows "counted (is @ [i]) content"
proof -
  have "ins_entry i \<noteq> entry r" if "r \<in> set content" for r
  proof -
    from inv that have "entry r \<in> accepted is" by (auto simp: counted_def)
    then have "canAdd (entry r) = Inr True" by (simp add: accepted_def)
    with rej show ?thesis by auto
  qed
  then have "\<forall>r\<in>set content. ins_entry i \<noteq> entry r" by blast
  then show ?thesis using inv rej by (simp add: counted_def accepted_snoc)
qed

lemma inserts_counted:
  assumes srt: "conforming_sort srt" and empty: "content_of this name = []"
  shows "\<forall>i\<in>set is. ins_increment i \<Longrightarrow> fits k is
    \<Longrightarrow> counted is (content_of (inserts srt name k this is) name)"
proof (induction "is" rule: rev_induct)
  case Nil
  then show ?case using empty by (simp add: inserts_def counted_def accepted_def)
next
  case (snoc i "is")
  let ?before = "inserts srt name k this is"
  have inv: "counted is (content_of ?before name)"
    using snoc.IH snoc.prems fits_snoc by auto
  have inc: "ins_increment i" using snoc.prems(1) by simp
  show ?case
  proof (cases "canAdd (ins_entry i) = Inr True")
    case True
    let ?m = "merged (content_of ?before name) (ins_entry i) True (ins_now i)"
    have step: "counted (is @ [i]) ?m" using counted_step[OF inv True refl] .
    then have "length ?m = card (accepted (is @ [i]))"
      by (metis counted_def distinct_card length_map set_map)
    then have keep: "reduced srt cmp k ?m = ?m" for cmp
      using reduced_fits[OF snoc.prems(2)] by simp
    from insert1_accepted[OF True] obtain cmp
      where "content_of (insert1 srt name k ?before i) name
               = reduced srt cmp k (merged (content_of ?before name) (ins_entry i) (ins_increment i) (ins_now i))"
      by blast
    then have "content_of (insert1 srt name k ?before i) name = ?m" using inc keep by simp
    with step show ?thesis by (simp add: inserts_snoc)
  next
    case False
    then show ?thesis using counted_skip[OF inv False] by (simp add: inserts_snoc insert1_rejected)
  qed
qed

lemma set_reduced:
  assumes "conforming_sort srt"
  shows "set (reduced srt cmp k content) \<subseteq> set content"
proof (cases k)
  case None
  then show ?thesis by (simp add: reduced_def)
next
  case (Some c)
  have "set (butlast (srt cmp content)) \<subseteq> set content"
    using conforming_set[OF assms, of cmp content] in_set_butlastD by fastforce
  then show ?thesis using Some by (simp add: reduced_def)
qed

text \<open>One merging insert: what a record that is stored afterwards can be.\<close>

lemma insert1_step:
  assumes srt: "conforming_sort srt" and inc: "ins_increment i"
    and acc: "canAdd (ins_entry i) = Inr True"
    and d: "distinct (map entry (content_of this name))"
    and r': "r' \<in> set (content_of (insert1 srt name k this i) name)"
  shows "(entry r' \<noteq> ins_entry i \<and> r' \<in> set (content_of this name))
       \<or> (entry r' = ins_entry i
            \<and> (\<exists>r\<in>set (content_of this name). entry r = ins_entry i
                   \<and> r' = incrementEntry r (ins_now i)))
       \<or> (entry r' = ins_entry i \<and> ins_entry i \<notin> entry ` set (content_of this name)
            \<and> r' = newRecord (ins_entry i) (ins_now i))"
proof -
  let ?e = "ins_entry i" and ?content = "content_of this name"
  let ?m = "merged ?content ?e True (ins_now i)"
  from insert1_accepted[OF acc] obtain cmp
    where "content_of (insert1 srt name k this i) name
             = reduced srt cmp k (merged ?content ?e (ins_increment i) (ins_now i))"
    by blast
  with r' inc set_reduced[OF srt] have in_m: "r' \<in> set ?m" by auto
  show ?thesis
  proof (cases "?e \<in> entry ` set ?content")
    case True
    have "?m = map (\<lambda>r. if entry r = ?e then incrementEntry r (ins_now i) else r) ?content"
      using True d by (simp add: merged_found incrementFirst_distinct)
    with in_m obtain r where r: "r \<in> set ?content"
      "r' = (if entry r = ?e then incrementEntry r (ins_now i) else r)" by auto
    show ?thesis
    proof (cases "entry r = ?e")
      case True
      with r have "entry r' = ?e" by (simp add: incrementEntry_def)
      with r True show ?thesis by auto
    next
      case False
      with r show ?thesis by auto
    qed
  next
    case False
    have "?m = ?content @ [newRecord ?e (ins_now i)]" using False by (rule merged_fresh)
    with in_m have "r' \<in> set ?content \<or> r' = newRecord ?e (ins_now i)" by auto
    then show ?thesis
    proof
      assume old: "r' \<in> set ?content"
      have "entry r' \<noteq> ?e"
      proof
        assume "entry r' = ?e"
        then have "?e = entry r'" by (rule sym)
        with old have "?e \<in> entry ` set ?content" by (rule rev_image_eqI)
        with False show False ..
      qed
      with old show ?thesis by blast
    next
      assume "r' = newRecord ?e (ins_now i)"
      with False show ?thesis by (simp add: newRecord_def)
    qed
  qed
qed

lemma entries_insert1:
  assumes srt: "conforming_sort srt" and inc: "ins_increment i"
    and acc: "canAdd (ins_entry i) = Inr True"
  shows "entry ` set (content_of (insert1 srt name k this i) name)
           \<subseteq> insert (ins_entry i) (entry ` set (content_of this name))"
proof -
  from insert1_accepted[OF acc] obtain cmp
    where "content_of (insert1 srt name k this i) name
             = reduced srt cmp k (merged (content_of this name) (ins_entry i) (ins_increment i) (ins_now i))"
    by blast
  then have "set (content_of (insert1 srt name k this i) name)
               \<subseteq> set (merged (content_of this name) (ins_entry i) True (ins_now i))"
    using inc set_reduced[OF srt] by simp
  then have "entry ` set (content_of (insert1 srt name k this i) name)
               \<subseteq> entry ` set (merged (content_of this name) (ins_entry i) True (ins_now i))"
    by (rule image_mono)
  then show ?thesis by (simp only: entries_merged)
qed

lemma inserts_stored_accepted:
  assumes srt: "conforming_sort srt" and empty: "content_of this name = []"
  shows "\<forall>i\<in>set is. ins_increment i
    \<Longrightarrow> \<forall>r\<in>set (content_of (inserts srt name k this is) name). canAdd (entry r) = Inr True"
proof (induction "is" rule: rev_induct)
  case Nil
  then show ?case using empty by (simp add: inserts_def)
next
  case (snoc i "is")
  let ?before = "inserts srt name k this is"
  have IH: "\<forall>r\<in>set (content_of ?before name). canAdd (entry r) = Inr True"
    using snoc by simp
  have inc: "ins_increment i" using snoc.prems by simp
  show ?case
  proof (cases "canAdd (ins_entry i) = Inr True")
    case True
    show ?thesis
    proof
      fix r assume "r \<in> set (content_of (inserts srt name k this (is @ [i])) name)"
      then have "entry r \<in> entry ` set (content_of (insert1 srt name k ?before i) name)"
        by (simp add: inserts_snoc)
      with entries_insert1[OF srt inc True, of name k ?before]
      have "entry r = ins_entry i \<or> entry r \<in> entry ` set (content_of ?before name)" by blast
      then show "canAdd (entry r) = Inr True" using True IH by auto
    qed
  next
    case False
    then show ?thesis using IH by (simp add: inserts_snoc insert1_rejected)
  qed
qed

lemma count_list_snoc:
  "count_list (xs @ [x]) v = count_list xs v + (if x = v then 1 else 0)"
  by (induction xs) simp_all

lemma inserts_since_created:
  assumes srt: "conforming_sort srt" and empty: "content_of this name = []"
  shows "\<forall>i\<in>set is. ins_increment i
    \<Longrightarrow> \<forall>r\<in>set (content_of (inserts srt name k this is) name).
          \<exists>n<length is.
             entry r \<notin> entry ` set (content_of (inserts srt name k this (take n is)) name)
           \<and> (\<forall>m. n < m \<and> m \<le> length is \<longrightarrow>
                  entry r \<in> entry ` set (content_of (inserts srt name k this (take m is)) name))
           \<and> count_r r = int (count_list (map ins_entry (drop n is)) (entry r))"
proof (induction "is" rule: rev_induct)
  case Nil
  then show ?case using empty by (simp add: inserts_def)
next
  case (snoc i "is")
  let ?C = "\<lambda>js. content_of (inserts srt name k this js) name"
  let ?e = "ins_entry i"
  have incs: "\<forall>i\<in>set is. ins_increment i" and inc: "ins_increment i"
    using snoc.prems by simp_all
  have IH: "\<forall>r\<in>set (?C is). \<exists>n<length is.
             entry r \<notin> entry ` set (?C (take n is))
           \<and> (\<forall>m. n < m \<and> m \<le> length is \<longrightarrow> entry r \<in> entry ` set (?C (take m is)))
           \<and> count_r r = int (count_list (map ins_entry (drop n is)) (entry r))"
    using snoc.IH[OF incs] .
  have d: "distinct (map entry (?C is))"
    using inserts_distinct[OF srt incs, of this name k] empty by simp
  have stored_acc: "\<forall>r\<in>set (?C is). canAdd (entry r) = Inr True"
    using inserts_stored_accepted[OF srt empty incs] .
  have after: "?C (is @ [i]) = content_of (insert1 srt name k (inserts srt name k this is) i) name"
    by (simp add: inserts_snoc)
  have continue: "\<exists>n<length (is @ [i]).
             entry r' \<notin> entry ` set (?C (take n (is @ [i])))
           \<and> (\<forall>m. n < m \<and> m \<le> length (is @ [i]) \<longrightarrow>
                  entry r' \<in> entry ` set (?C (take m (is @ [i]))))
           \<and> count_r r' = int (count_list (map ins_entry (drop n (is @ [i]))) (entry r'))"
    if r: "r \<in> set (?C is)" and same: "entry r' = entry r"
      and stored: "r' \<in> set (?C (is @ [i]))"
      and count: "count_r r' = count_r r + (if ?e = entry r then 1 else 0)"
    for r r'
  proof -
    from IH r obtain n where n: "n < length is"
      "entry r \<notin> entry ` set (?C (take n is))"
      "\<forall>m. n < m \<and> m \<le> length is \<longrightarrow> entry r \<in> entry ` set (?C (take m is))"
      "count_r r = int (count_list (map ins_entry (drop n is)) (entry r))" by blast
    have "entry r' \<in> entry ` set (?C (take m (is @ [i])))"
      if m: "n < m \<and> m \<le> length (is @ [i])" for m
    proof (cases "m \<le> length is")
      case True
      with m n(3) same show ?thesis by simp
    next
      case False
      with m have "take m (is @ [i]) = is @ [i]" by simp
      with stored show ?thesis by auto
    qed
    moreover have "entry r' \<notin> entry ` set (?C (take n (is @ [i])))"
      using n(1,2) same by simp
    moreover have "count_r r' = int (count_list (map ins_entry (drop n (is @ [i]))) (entry r'))"
      using n(1,4) same count by (simp add: count_list_snoc)
    ultimately show ?thesis using n(1) by (intro exI[of _ n]) simp
  qed
  show ?case
  proof
    fix r' assume stored: "r' \<in> set (?C (is @ [i]))"
    show "\<exists>n<length (is @ [i]).
             entry r' \<notin> entry ` set (?C (take n (is @ [i])))
           \<and> (\<forall>m. n < m \<and> m \<le> length (is @ [i]) \<longrightarrow>
                  entry r' \<in> entry ` set (?C (take m (is @ [i]))))
           \<and> count_r r' = int (count_list (map ins_entry (drop n (is @ [i]))) (entry r'))"
    proof (cases "canAdd ?e = Inr True")
      case False
      then have same: "?C (is @ [i]) = ?C is" by (simp add: inserts_snoc insert1_rejected)
      with stored have r: "r' \<in> set (?C is)" by simp
      with stored_acc False have "?e \<noteq> entry r'" by auto
      then show ?thesis using continue[OF r refl stored] by simp
    next
      case True
      have "r' \<in> set (content_of (insert1 srt name k (inserts srt name k this is) i) name)"
        using stored after by simp
      from insert1_step[OF srt inc True d this]
      consider (old) "entry r' \<noteq> ?e" "r' \<in> set (?C is)"
        | (more) r where "entry r' = ?e" "r \<in> set (?C is)" "entry r = ?e"
            "r' = incrementEntry r (ins_now i)"
        | (new) "entry r' = ?e" "?e \<notin> entry ` set (?C is)" "r' = newRecord ?e (ins_now i)"
        by blast
      then show ?thesis
      proof cases
        case old
        then show ?thesis using continue[OF old(2) refl stored] by auto
      next
        case more
        have "count_r r' = count_r r + (if ?e = entry r then 1 else 0)"
          using more by (simp add: incrementEntry_def)
        moreover have "entry r' = entry r" using more by simp
        ultimately show ?thesis using continue[OF more(2) _ stored] by blast
      next
        case new
        have "entry r' \<notin> entry ` set (?C (take (length is) (is @ [i])))"
          using new by simp
        moreover have "entry r' \<in> entry ` set (?C (take m (is @ [i])))"
          if "length is < m \<and> m \<le> length (is @ [i])" for m
        proof -
          from that have "length (is @ [i]) \<le> m" by simp
          then have "take m (is @ [i]) = is @ [i]" by (rule take_all)
          with stored show ?thesis by auto
        qed
        moreover have "count_r r'
            = int (count_list (map ins_entry (drop (length is) (is @ [i]))) (entry r'))"
          using new by (simp add: newRecord_def)
        ultimately show ?thesis by (intro exI[of _ "length is"]) simp
      qed
    qed
  qed
qed

lemma distinct_texts:
  "distinct (map (\<lambda>r. stringify (entry r)) xs) = distinct (map entry xs)"
proof -
  have "inj_on stringify A" for A by (simp add: inj_on_def)
  then have "distinct (map stringify (map entry xs)) = distinct (map entry xs)"
    by (simp only: distinct_map simp_thms)
  then show ?thesis by (simp only: map_map o_def)
qed

lemma text_stored:
  "stringify e \<in> (\<lambda>r. stringify (entry r)) ` set xs \<longleftrightarrow> e \<in> entry ` set xs"
  by (auto simp: image_iff)

lemma count_texts:
  "count_list (map (\<lambda>i. stringify (ins_entry i)) is) (stringify e)
     = count_list (map ins_entry is) e"
  by (induction "is") simp_all

text \<open>
  Claim C2, as the code has it. Line 420 finds the stored record by the JSON text of its
  entry, and the text of an object lists the properties in their order. For every
  sequence of inserts with \<open>increment = true\<close> (calls of \<open>addArrayEntry\<close> and
  \<open>addArrayCountEntry\<close>), with any persisted amount:

    \<^item> the entries of a collection have pairwise distinct JSON texts after the sequence,
      when they had before it;

    \<^item> in a collection that starts empty, every record that is stored after the sequence
      was created by an insert of the sequence (the text of its entry was not stored
      before that insert), its entry has been stored after every insert since, and its
      count is the number of inserts of that text from that insert on, whatever was
      evicted;

    \<^item> when the collection starts empty and the sequence fits the persisted amount (no
      record is evicted), the stored entries are the accepted entries that were inserted
      and the count of each record is the number of all the inserts of its text.

  Every prefix of a sequence is a sequence, so this holds after each insert.
\<close>

theorem merged_inserts_counted:
  assumes srt: "conforming_sort srt" and inc: "\<forall>i\<in>set is. ins_increment i"
  shows "(distinct (map (\<lambda>r. stringify (entry r)) (content_of this name)) \<longrightarrow>
            distinct (map (\<lambda>r. stringify (entry r))
                        (content_of (inserts srt name k this is) name)))
       \<and> (content_of this name = [] \<longrightarrow>
            (\<forall>r\<in>set (content_of (inserts srt name k this is) name).
               \<exists>n<length is.
                  stringify (entry r) \<notin> (\<lambda>x. stringify (entry x)) `
                     set (content_of (inserts srt name k this (take n is)) name)
                \<and> (\<forall>m. n < m \<and> m \<le> length is \<longrightarrow>
                       stringify (entry r) \<in> (\<lambda>x. stringify (entry x)) `
                          set (content_of (inserts srt name k this (take m is)) name))
                \<and> count_r r = int (count_list (map (\<lambda>i. stringify (ins_entry i)) (drop n is))
                                       (stringify (entry r)))))
       \<and> (content_of this name = [] \<and> fits k is \<longrightarrow>
            entry ` set (content_of (inserts srt name k this is) name) = accepted is
          \<and> (\<forall>r\<in>set (content_of (inserts srt name k this is) name).
                count_r r = int (count_list (map (\<lambda>i. stringify (ins_entry i)) is)
                                   (stringify (entry r)))))"
proof -
  have 1: "distinct (map (\<lambda>r. stringify (entry r)) (content_of this name)) \<longrightarrow>
            distinct (map (\<lambda>r. stringify (entry r))
                        (content_of (inserts srt name k this is) name))"
    unfolding distinct_texts using inserts_distinct[OF srt inc] by simp
  have 2: "content_of this name = [] \<longrightarrow>
            (\<forall>r\<in>set (content_of (inserts srt name k this is) name).
               \<exists>n<length is.
                  stringify (entry r) \<notin> (\<lambda>x. stringify (entry x)) `
                     set (content_of (inserts srt name k this (take n is)) name)
                \<and> (\<forall>m. n < m \<and> m \<le> length is \<longrightarrow>
                       stringify (entry r) \<in> (\<lambda>x. stringify (entry x)) `
                          set (content_of (inserts srt name k this (take m is)) name))
                \<and> count_r r = int (count_list (map (\<lambda>i. stringify (ins_entry i)) (drop n is))
                                       (stringify (entry r))))"
    unfolding text_stored count_texts
    using inserts_since_created[OF srt _ inc, of this name k] by (rule impI)
  have 3: "content_of this name = [] \<and> fits k is \<longrightarrow>
            entry ` set (content_of (inserts srt name k this is) name) = accepted is
          \<and> (\<forall>r\<in>set (content_of (inserts srt name k this is) name).
                count_r r = int (count_list (map (\<lambda>i. stringify (ins_entry i)) is)
                                   (stringify (entry r))))"
    unfolding count_texts
  proof (rule impI)
    assume a: "content_of this name = [] \<and> fits k is"
    then have "counted is (content_of (inserts srt name k this is) name)"
      using inserts_counted[OF srt _ inc] by simp
    then show "entry ` set (content_of (inserts srt name k this is) name) = accepted is
          \<and> (\<forall>r\<in>set (content_of (inserts srt name k this is) name).
                count_r r = int (count_list (map ins_entry is) (entry r)))"
      by (simp add: counted_def)
  qed
  from 1 2 3 show ?thesis by (intro conjI)
qed

theorem merged_inserts_counted_witness:
  "conforming_sort insertion_sort
   \<and> content_of (new_StateManagement Map.empty False) ''paths'' = []
   \<and> fits (Some 10) same_path_thrice
   \<and> distinct (map (\<lambda>r. stringify (entry r))
        (content_of (inserts insertion_sort ''paths'' (Some 10)
          (new_StateManagement Map.empty False) same_path_thrice) ''paths''))
   \<and> entry ` set (content_of (inserts insertion_sort ''paths'' (Some 10)
          (new_StateManagement Map.empty False) same_path_thrice) ''paths'')
       = accepted same_path_thrice
   \<and> content_of (inserts insertion_sort ''paths'' (Some 10)
          (new_StateManagement Map.empty False) same_path_thrice) ''paths''
       = [\<lparr>entry = Str ''/img/100/100'', time = 3, count_r = 3\<rparr>]
   \<and> count_list (map (\<lambda>i. stringify (ins_entry i)) same_path_thrice)
        (stringify (Str ''/img/100/100'')) = 3
   \<and> \<lparr>entry = Str ''/img/1/1'', time = 12, count_r = 1\<rparr>
       \<in> set (content_of (inserts insertion_sort ''paths'' (Some 10)
                 (new_StateManagement Map.empty False) twelve_paths) ''paths'')
   \<and> (\<exists>n<length twelve_paths.
         stringify (Str ''/img/1/1'') \<notin> (\<lambda>x. stringify (entry x)) `
            set (content_of (inserts insertion_sort ''paths'' (Some 10)
                   (new_StateManagement Map.empty False) (take n twelve_paths)) ''paths'')
       \<and> 1 = int (count_list (map (\<lambda>i. stringify (ins_entry i)) (drop n twelve_paths))
                    (stringify (Str ''/img/1/1''))))"
proof -
  let ?new = "new_StateManagement Map.empty False"
  let ?r = "\<lparr>entry = Str ''/img/1/1'', time = 12, count_r = 1\<rparr>"
  have inc: "\<forall>i\<in>set same_path_thrice. ins_increment i" by (simp add: same_path_thrice_def)
  have inc12: "\<forall>i\<in>set twelve_paths. ins_increment i" by (simp add: twelve_paths_def)
  have empty: "content_of ?new ''paths'' = []" by code_simp
  have acc: "accepted same_path_thrice = {Str ''/img/100/100''}"
    by (auto simp: accepted_def same_path_thrice_def canAdd_def isNil_def isArray_def)
  have fits: "fits (Some 10) same_path_thrice" by (simp add: fits_def acc)
  have d0: "distinct (map (\<lambda>r. stringify (entry r)) (content_of ?new ''paths''))"
    by (simp add: empty)
  note inst = merged_inserts_counted[OF conforming_insertion_sort inc,
      where this = "?new" and name = "''paths''" and k = "Some 10"]
  note inst12 = merged_inserts_counted[OF conforming_insertion_sort inc12,
      where this = "?new" and name = "''paths''" and k = "Some 10"]
  have d: "distinct (map (\<lambda>r. stringify (entry r))
             (content_of (inserts insertion_sort ''paths'' (Some 10) ?new
                                   same_path_thrice) ''paths''))"
    using inst d0 by blast
  have s: "entry ` set (content_of (inserts insertion_sort ''paths'' (Some 10) ?new
                          same_path_thrice) ''paths'') = accepted same_path_thrice"
    using inst empty fits by blast
  have c: "content_of (inserts insertion_sort ''paths'' (Some 10) ?new same_path_thrice) ''paths''
             = [\<lparr>entry = Str ''/img/100/100'', time = 3, count_r = 3\<rparr>]"
    by code_simp
  have n: "count_list (map (\<lambda>i. stringify (ins_entry i)) same_path_thrice)
             (stringify (Str ''/img/100/100'')) = 3"
    by code_simp
  have stored: "?r \<in> set (content_of (inserts insertion_sort ''paths'' (Some 10) ?new
                                        twelve_paths) ''paths'')"
    by code_simp
  from inst12 empty stored
  have "\<exists>n<length twelve_paths.
         stringify (entry ?r) \<notin> (\<lambda>x. stringify (entry x)) `
            set (content_of (inserts insertion_sort ''paths'' (Some 10) ?new
                   (take n twelve_paths)) ''paths'')
       \<and> (\<forall>m. n < m \<and> m \<le> length twelve_paths \<longrightarrow>
              stringify (entry ?r) \<in> (\<lambda>x. stringify (entry x)) `
                 set (content_of (inserts insertion_sort ''paths'' (Some 10) ?new
                        (take m twelve_paths)) ''paths''))
       \<and> count_r ?r = int (count_list (map (\<lambda>i. stringify (ins_entry i)) (drop n twelve_paths))
                              (stringify (entry ?r)))"
    by blast
  then have e: "\<exists>n<length twelve_paths.
         stringify (Str ''/img/1/1'') \<notin> (\<lambda>x. stringify (entry x)) `
            set (content_of (inserts insertion_sort ''paths'' (Some 10) ?new
                   (take n twelve_paths)) ''paths'')
       \<and> 1 = int (count_list (map (\<lambda>i. stringify (ins_entry i)) (drop n twelve_paths))
                    (stringify (Str ''/img/1/1'')))"
    by (simp del: stringify_eq_iff) blast
  show ?thesis using conforming_insertion_sort empty fits d s c n stored e by (intro conjI)
qed

text \<open>
  The claim as stated fails in two ways. Two objects with the same properties in another
  order are structurally equal and have two JSON texts: the texts \<^verbatim>\<open>{ a: '1', b: '2' }\<close>
  and \<^verbatim>\<open>{ b: '2', a: '1' }\<close> are stored as two records of the collection \<^verbatim>\<open>texts\<close>. And
  the count starts again after an eviction: in the collection \<^verbatim>\<open>paths\<close>, kept at ten
  records, a path that is requested, evicted by ten other paths and requested again is
  stored with the count 1, and it was inserted twice.
\<close>

theorem stored_twice_and_counted_anew:
  "map entry (content_of (inserts insertion_sort ''texts'' (Some 10)
                            (new_StateManagement Map.empty False) reordered_texts) ''texts'')
     = [Obj [(''a'', Text ''1''), (''b'', Text ''2'')],
        Obj [(''b'', Text ''2''), (''a'', Text ''1'')]]
   \<and> structurally_equal (Obj [(''a'', Text ''1''), (''b'', Text ''2'')])
                        (Obj [(''b'', Text ''2''), (''a'', Text ''1'')])
   \<and> stringify (Obj [(''a'', Text ''1''), (''b'', Text ''2'')])
       = Some ''{\"a\":\"1\",\"b\":\"2\"}''
   \<and> hd (content_of (inserts insertion_sort ''paths'' (Some 10)
                     (new_StateManagement Map.empty False) twelve_paths) ''paths'')
     = \<lparr>entry = Str ''/img/1/1'', time = 12, count_r = 1\<rparr>
   \<and> count_list (map ins_entry twelve_paths) (Str ''/img/1/1'') = 2"
  by code_simp

end
